theory Spec2Isabelle
  imports Main
begin

section \<open>The world of \<^verbatim>\<open>tree.py\<close>\<close>

text \<open>
  \<^verbatim>\<open>tree.py\<close> talks to its environment through \<^verbatim>\<open>os.listdir\<close>,
  \<^verbatim>\<open>os.path.isdir\<close>, \<^verbatim>\<open>os.getcwd\<close> and \<^verbatim>\<open>print\<close>.

  Strings are byte strings: the UTF-8 encoding of the Python text, which is also how the
  literals stand in the source file. The program only concatenates strings, tests for a
  leading \<^verbatim>\<open>'.'\<close> and (inside \<^verbatim>\<open>os.path\<close>) looks for \<^verbatim>\<open>'/'\<close>; these act alike
  on code points and on their UTF-8 bytes.

  The exceptions that can leave the program: \<^verbatim>\<open>os.listdir\<close> raises an
  \<^verbatim>\<open>OSError\<close> (of one of the subclasses below, or another one), and indexing an empty
  \<^verbatim>\<open>sys.argv\<close> raises \<^verbatim>\<open>IndexError\<close>.
\<close>

datatype exn =
    FileNotFoundError
  | PermissionError
  | NotADirectoryError
  | OSError
  | IndexError

text \<open>
  A file system is what the three \<^verbatim>\<open>os\<close> calls answer. \<^verbatim>\<open>os.listdir\<close> returns
  the names in a directory, in the order of the operating system, or raises.
  \<^verbatim>\<open>os.path.isdir\<close> never raises: it answers \<^verbatim>\<open>False\<close> when the path cannot
  be examined. \<^verbatim>\<open>os.getcwd\<close> is taken to succeed (the process has a working
  directory). No relation between the three answers is assumed: a path can be a directory
  and still fail to list (permissions, or removal between the two calls).
\<close>

record filesystem =
  fs_listdir :: "string \<Rightarrow> exn + string list"
  fs_isdir :: "string \<Rightarrow> bool"
  fs_getcwd :: "string"

text \<open>
  What the program does, in order: the lines it prints on standard output and the
  directories it asks \<^verbatim>\<open>os.listdir\<close> for. A run is the events of a call together with
  the exception that ended it, if one did.
\<close>

datatype event =
    Print string
  | Listdir string

type_synonym run = "event list \<times> exn option"

fun stdout :: "event list \<Rightarrow> string list" where
  "stdout [] = []"
| "stdout (Print s # evs) = s # stdout evs"
| "stdout (Listdir d # evs) = stdout evs"

fun listed :: "event list \<Rightarrow> string list" where
  "listed [] = []"
| "listed (Print s # evs) = listed evs"
| "listed (Listdir d # evs) = d # listed evs"

text \<open>
  Statement sequencing: the second statement runs only when the first one raised nothing.
\<close>

fun then_run :: "run \<Rightarrow> run \<Rightarrow> run" where
  "then_run (evs, Some e) nxt = (evs, Some e)"
| "then_run (evs, None) (evs', r) = (evs @ evs', r)"

section \<open>Library functions of Python\<close>

text \<open>\<^verbatim>\<open>s.startswith(p)\<close> and \<^verbatim>\<open>s.endswith(p)\<close>.\<close>

fun startswith :: "string \<Rightarrow> string \<Rightarrow> bool" where
  "startswith s [] = True"
| "startswith [] (c # p) = False"
| "startswith (x # s) (c # p) = (x = c \<and> startswith s p)"

definition endswith :: "string \<Rightarrow> string \<Rightarrow> bool" where
  "endswith s p = startswith (rev s) (rev p)"

text \<open>
  \<^verbatim>\<open>posixpath.join(a, b)\<close>: an absolute \<^verbatim>\<open>b\<close>, or an empty \<^verbatim>\<open>a\<close>, gives
  \<^verbatim>\<open>b\<close>; otherwise the two are joined by one \<^verbatim>\<open>'/'\<close> unless \<^verbatim>\<open>a\<close> ends in one.
\<close>

definition join :: "string \<Rightarrow> string \<Rightarrow> string" where
  "join a b =
     (if startswith b ''/'' \<or> a = [] then b
      else if endswith a ''/'' then a @ b
      else a @ ''/'' @ b)"

text \<open>
  \<^verbatim>\<open>posixpath.basename(p)\<close> is \<^verbatim>\<open>p[p.rfind('/') + 1:]\<close>: what follows the last
  \<^verbatim>\<open>'/'\<close>, or all of \<^verbatim>\<open>p\<close> when it has none.
\<close>

definition basename :: "string \<Rightarrow> string" where
  "basename p = rev (takeWhile (\<lambda>c. c \<noteq> CHR ''/'') (rev p))"

section \<open>The string literals of the source\<close>

text \<open>
  The box-drawing characters in UTF-8: U+251C is \<^verbatim>\<open>E2 94 9C\<close>, U+2514 is
  \<^verbatim>\<open>E2 94 94\<close>, U+2500 is \<^verbatim>\<open>E2 94 80\<close> and U+2502 is \<^verbatim>\<open>E2 94 82\<close>.
\<close>

definition connector_mid :: string where
  "connector_mid =
     [CHR 0xE2, CHR 0x94, CHR 0x9C, CHR 0xE2, CHR 0x94, CHR 0x80, CHR 0xE2, CHR 0x94, CHR 0x80,
      CHR '' '']"

definition connector_last :: string where
  "connector_last =
     [CHR 0xE2, CHR 0x94, CHR 0x94, CHR 0xE2, CHR 0x94, CHR 0x80, CHR 0xE2, CHR 0x94, CHR 0x80,
      CHR '' '']"

definition indent_mid :: string where
  "indent_mid = [CHR 0xE2, CHR 0x94, CHR 0x82, CHR '' '', CHR '' '', CHR '' '']"

definition indent_last :: string where
  "indent_last = ''    ''"

section \<open>The program\<close>

text \<open>
  \<^verbatim>\<open>directory_sanitizer\<close>: the handlers of the \<^verbatim>\<open>try\<close> are never entered, since
  \<^verbatim>\<open>os.path.isdir\<close> does not raise. The result is what was printed and the boolean
  returned.
\<close>

definition directory_sanitizer :: "filesystem \<Rightarrow> string \<Rightarrow> event list \<times> bool" where
  "directory_sanitizer fs path =
     (if fs_isdir fs path then ([], True)
      else ([Print (''error: the directory '' @ [CHR 0x27] @ path @ [CHR 0x27] @
                    '' does not exist.'')], False))"

text \<open>
  \<^verbatim>\<open>print_directory\<close> and its \<^verbatim>\<open>for\<close> loop. \<open>print_items\<close> is the loop from
  position \<open>index\<close> on, over the items still to come; \<open>count\<close> is \<^verbatim>\<open>len(items)\<close> of
  the whole list.
\<close>

function print_directory ::
    "filesystem \<Rightarrow> string \<Rightarrow> string \<Rightarrow> bool \<Rightarrow> int \<Rightarrow> int \<Rightarrow> run"
  and print_items ::
    "filesystem \<Rightarrow> string \<Rightarrow> string \<Rightarrow> bool \<Rightarrow> int \<Rightarrow> int \<Rightarrow> nat \<Rightarrow> nat \<Rightarrow> string list \<Rightarrow> run"
where
  "print_directory fs directory prefix include_dotfiles max_depth current_depth =
     (if current_depth > max_depth then ([], None)
      else
        (case fs_listdir fs directory of
          Inl e \<Rightarrow> ([Listdir directory], Some e)
        | Inr listing \<Rightarrow>
            (let items =
                   (if \<not> include_dotfiles
                    then filter (\<lambda>item. \<not> startswith item ''.'') listing
                    else listing);
                 count = length items
             in then_run ([Listdir directory], None)
                  (print_items fs directory prefix include_dotfiles max_depth current_depth
                     count 0 items))))"
| "print_items fs directory prefix include_dotfiles max_depth current_depth count index [] =
     ([], None)"
| "print_items fs directory prefix include_dotfiles max_depth current_depth count index
       (item # rest) =
     (let path = join directory item;
          is_last = (int index = int count - 1)
      in then_run
           ([Print (prefix @ (if is_last then connector_last else connector_mid) @ item @
                    (if fs_isdir fs path then ''/'' else ''''))], None)
           (then_run
              (if fs_isdir fs path
               then print_directory fs path
                      (prefix @ (if is_last then indent_last else indent_mid))
                      include_dotfiles max_depth (current_depth + 1)
               else ([], None))
              (print_items fs directory prefix include_dotfiles max_depth current_depth
                 count (Suc index) rest)))"
  by pat_completeness auto

termination
  by (relation "measures
        [\<lambda>x. case x of
                Inl (fs, d, p, h, md, cd) \<Rightarrow> 2 * nat (md + 1 - cd)
              | Inr (fs, d, p, h, md, cd, n, i, items) \<Rightarrow> 2 * nat (md - cd) + 1,
         \<lambda>x. case x of
                Inl (fs, d, p, h, md, cd) \<Rightarrow> 0
              | Inr (fs, d, p, h, md, cd, n, i, items) \<Rightarrow> length items]")
    auto

declare print_directory.simps [simp del]

text \<open>\<^verbatim>\<open>print_tree\<close>: the header is the base name of the working directory.\<close>

definition print_tree :: "filesystem \<Rightarrow> string \<Rightarrow> string \<Rightarrow> bool \<Rightarrow> int \<Rightarrow> run" where
  "print_tree fs directory prefix include_dotfiles max_depth =
     then_run ([Print (basename (fs_getcwd fs) @ ''/'')], None)
       (print_directory fs directory prefix include_dotfiles max_depth 0)"

text \<open>
  \<^verbatim>\<open>main\<close>, on \<^verbatim>\<open>sys.argv\<close>. \<^verbatim>\<open>sys.argv[args_amount - 1]\<close> on an empty list is
  \<^verbatim>\<open>sys.argv[-1]\<close>, which raises. The defaults of \<^verbatim>\<open>print_tree\<close> are the empty
  prefix, no dotfiles and depth 10.
\<close>

definition usage :: string where
  "usage = ''usage: tree || tree <DIR> [-a | --all]''"

definition main :: "filesystem \<Rightarrow> string list \<Rightarrow> run" where
  "main fs argv =
     (let args_amount = length argv in
      if args_amount = 0 then ([], Some IndexError)
      else
        (let is_all = (argv ! (args_amount - 1) \<in> set [''-a'', ''--all'']) in
         if args_amount = 1 then print_tree fs (fs_getcwd fs) [] False 10
         else if args_amount = 2 \<and> is_all then print_tree fs (fs_getcwd fs) [] True 10
         else if args_amount = 2 \<and> \<not> is_all then
           (case directory_sanitizer fs (argv ! 1) of
             (out, ok) \<Rightarrow>
               if ok then then_run (out, None) (print_tree fs (argv ! 1) [] False 10)
               else (out, None))
         else if args_amount = 3 \<and> is_all then
           (case directory_sanitizer fs (argv ! 1) of
             (out, ok) \<Rightarrow>
               if ok then then_run (out, None) (print_tree fs (argv ! 1) [] True 10)
               else (out, None))
         else ([Print usage], None)))"

section \<open>Notions used in the statements\<close>

text \<open>
  The items the loop of \<^verbatim>\<open>print_directory\<close> runs over in a directory: its listing,
  without the names that start with a dot unless dotfiles are included. A directory that
  cannot be listed has none.
\<close>

definition entries :: "filesystem \<Rightarrow> bool \<Rightarrow> string \<Rightarrow> string list" where
  "entries fs include_dotfiles directory =
     (case fs_listdir fs directory of
       Inl e \<Rightarrow> []
     | Inr listing \<Rightarrow>
         if \<not> include_dotfiles then filter (\<lambda>item. \<not> startswith item ''.'') listing
         else listing)"

text \<open>The line of one entry: the argument of \<^verbatim>\<open>print\<close> in the loop.\<close>

definition entry_line :: "filesystem \<Rightarrow> string \<Rightarrow> string \<Rightarrow> bool \<Rightarrow> string \<Rightarrow> string" where
  "entry_line fs directory prefix is_last item =
     prefix @ (if is_last then connector_last else connector_mid) @ item @
     (if fs_isdir fs (join directory item) then ''/'' else [])"

text \<open>
  One line for each of the given items of a directory, the last one marked as last.
\<close>

definition level_lines :: "filesystem \<Rightarrow> string \<Rightarrow> string \<Rightarrow> string list \<Rightarrow> string list" where
  "level_lines fs directory prefix items =
     map (entry_line fs directory prefix False) (butlast items) @
     (if items = [] then [] else [entry_line fs directory prefix True (last items)])"

text \<open>Concrete file systems: a table from directories to what listing them gives.\<close>

definition mk_fs :: "(string \<times> (exn + string list)) list \<Rightarrow> string \<Rightarrow> filesystem" where
  "mk_fs dirs cwd =
     \<lparr>fs_listdir = (\<lambda>d. case map_of dirs d of Some r \<Rightarrow> r | None \<Rightarrow> Inl FileNotFoundError),
      fs_isdir = (\<lambda>p. map_of dirs p \<noteq> None),
      fs_getcwd = cwd\<rparr>"

definition scenario_A :: filesystem where
  "scenario_A =
     mk_fs [(''root'', Inr [''a.txt'', ''b.txt'', ''sub'']),
            (''root/sub'', Inr [''c.txt''])]
       ''/home/user/project''"


definition scenario_B :: filesystem where
  "scenario_B =
     mk_fs [(''root'', Inr [''.hidden'', ''a.txt'', ''sub'', ''.git'', ''b.txt'']),
            (''root/sub'', Inr [''c.txt'', ''deep'']),
            (''root/sub/deep'', Inr [''d.txt'']),
            (''root/.git'', Inr [''config''])]
       ''/home/user/project''"


text \<open>
  The line of an entry followed, when the entry is a directory, by one line for each item
  of that directory, indented by one more block.
\<close>

definition entry_and_children ::
  "filesystem \<Rightarrow> bool \<Rightarrow> string \<Rightarrow> string \<Rightarrow> bool \<Rightarrow> string \<Rightarrow> string list" where
  "entry_and_children fs include_dotfiles directory prefix is_last item =
     entry_line fs directory prefix is_last item #
     (if fs_isdir fs (join directory item)
      then level_lines fs (join directory item)
             (prefix @ (if is_last then indent_last else indent_mid))
             (entries fs include_dotfiles (join directory item))
      else [])"

definition two_levels ::
  "filesystem \<Rightarrow> bool \<Rightarrow> string \<Rightarrow> string \<Rightarrow> string list \<Rightarrow> string list" where
  "two_levels fs include_dotfiles directory prefix items =
     concat (map (entry_and_children fs include_dotfiles directory prefix False)
       (butlast items)) @
     (if items = [] then []
      else entry_and_children fs include_dotfiles directory prefix True (last items))"

text \<open>
  A line stands at the level of a prefix when a connector follows the prefix in it. The
  lines of the items of one directory stand at the level of the prefix of its call; the
  lines printed below them have an indentation block there.
\<close>

definition at_level :: "string \<Rightarrow> string \<Rightarrow> bool" where
  "at_level prefix line =
     (startswith line (prefix @ connector_mid) \<or> startswith line (prefix @ connector_last))"

text \<open>The same file system with the dotfiles taken out of every listing.\<close>

definition without_dotfiles :: "filesystem \<Rightarrow> filesystem" where
  "without_dotfiles fs =
     fs\<lparr>fs_listdir :=
          (\<lambda>d. case fs_listdir fs d of
                 Inl e \<Rightarrow> Inl e
               | Inr listing \<Rightarrow> Inr (filter (\<lambda>item. \<not> startswith item ''.'') listing))\<rparr>"

text \<open>
  An entry below a directory, given by the names on the way to it: each name is an item of
  the directory reached so far, and each one but the last is a directory. The entry is
  nested as deep below the directory as there are names before the last.
\<close>

fun entry_chain :: "filesystem \<Rightarrow> bool \<Rightarrow> string \<Rightarrow> string list \<Rightarrow> bool" where
  "entry_chain fs include_dotfiles directory [] = False"
| "entry_chain fs include_dotfiles directory [item] =
     (item \<in> set (entries fs include_dotfiles directory))"
| "entry_chain fs include_dotfiles directory (item # names) =
     (item \<in> set (entries fs include_dotfiles directory) \<and>
      fs_isdir fs (join directory item) \<and>
      entry_chain fs include_dotfiles (join directory item) names)"

text \<open>
  The depth read off a line: the number of indentation blocks at its start.
\<close>

function line_depth :: "string \<Rightarrow> nat" where
  "line_depth line =
     (if startswith line indent_last
      then Suc (line_depth (drop (length indent_last) line))
      else if startswith line indent_mid
      then Suc (line_depth (drop (length indent_mid) line))
      else 0)"
  by pat_completeness auto

termination
proof (relation "measure length")
  show "wf (measure length)" by simp
next
  fix line :: string
  assume "startswith line indent_last"
  then have "line \<noteq> []" by (cases line) (simp_all add: indent_last_def)
  then show "(drop (length indent_last) line, line) \<in> measure length"
    by (simp add: indent_last_def)
next
  fix line :: string
  assume "startswith line indent_mid"
  then have "line \<noteq> []" by (cases line) (simp_all add: indent_mid_def)
  then show "(drop (length indent_mid) line, line) \<in> measure length"
    by (simp add: indent_mid_def)
qed

declare line_depth.simps [simp del]

text \<open>
  A line is the line of an entry below a directory, printed behind a prefix: the prefix,
  one indentation block for each directory on the way, and the line of the entry.
\<close>

definition line_of_chain :: "filesystem \<Rightarrow> bool \<Rightarrow> string \<Rightarrow> string \<Rightarrow> string \<Rightarrow> bool" where
  "line_of_chain fs h d p l \<longleftrightarrow>
     (\<exists>names blocks is_last.
        entry_chain fs h d names \<and> set blocks \<subseteq> {indent_last, indent_mid} \<and>
        length names = Suc (length blocks) \<and>
        l = entry_line fs (foldl join d (butlast names)) (p @ concat blocks) is_last
              (last names))"


text \<open>The diagnostic of \<^verbatim>\<open>directory_sanitizer\<close> for a path that is no directory.\<close>

definition not_found_message :: "string \<Rightarrow> string" where
  "not_found_message path =
     ''error: the directory '' @ [CHR 0x27] @ path @ [CHR 0x27] @ '' does not exist.''"

text \<open>
  A way down from a directory through directories: each name is an item of the directory
  reached so far and is itself a directory. The call of \<^verbatim>\<open>print_directory\<close> on the
  directory at the end of a way of \<open>k\<close> names below the root runs at depth \<open>k\<close>.
\<close>

fun dir_chain :: "filesystem \<Rightarrow> bool \<Rightarrow> string \<Rightarrow> string list \<Rightarrow> bool" where
  "dir_chain fs include_dotfiles directory [] = True"
| "dir_chain fs include_dotfiles directory (item # names) =
     (item \<in> set (entries fs include_dotfiles directory) \<and>
      fs_isdir fs (join directory item) \<and>
      dir_chain fs include_dotfiles (join directory item) names)"

text \<open>
  A line is the line of the entry at the end of a chain of names below a directory: the
  prefix, one indentation block for each name before the last, and the line of the entry
  in the directory that holds it.
\<close>

definition chain_line :: "filesystem \<Rightarrow> string \<Rightarrow> string \<Rightarrow> string list \<Rightarrow> string \<Rightarrow> bool" where
  "chain_line fs directory prefix names line \<longleftrightarrow>
     (\<exists>blocks is_last.
        set blocks \<subseteq> {indent_last, indent_mid} \<and>
        length names = Suc (length blocks) \<and>
        line = entry_line fs (foldl join directory (butlast names)) (prefix @ concat blocks)
                 is_last (last names))"

text \<open>
  An event lies within \<open>k\<close> levels below a directory: a printed line is the line of an
  entry at most \<open>k\<close> directories down, a listing is of a directory at most \<open>k\<close>
  directories down.
\<close>

definition event_within ::
  "filesystem \<Rightarrow> bool \<Rightarrow> string \<Rightarrow> string \<Rightarrow> int \<Rightarrow> event \<Rightarrow> bool" where
  "event_within fs h d p k ev =
     (case ev of
       Print l \<Rightarrow>
         (\<exists>names. entry_chain fs h d names \<and> int (length names) \<le> k + 1 \<and>
                  chain_line fs d p names l)
     | Listdir x \<Rightarrow>
         (\<exists>names. dir_chain fs h d names \<and> int (length names) \<le> k \<and>
                  x = foldl join d names))"

text \<open>
  Events cover \<open>k\<close> levels below a directory: every directory at most \<open>k\<close> directories
  down is listed and every entry at most \<open>k\<close> directories down has its line. For one
  item: its line, and the levels below it when it is a directory.
\<close>

definition covered ::
  "filesystem \<Rightarrow> bool \<Rightarrow> string \<Rightarrow> string \<Rightarrow> int \<Rightarrow> event list \<Rightarrow> bool" where
  "covered fs h d p k evs \<longleftrightarrow>
     (\<forall>names. dir_chain fs h d names \<and> int (length names) \<le> k \<longrightarrow>
        Listdir (foldl join d names) \<in> set evs) \<and>
     (\<forall>names. entry_chain fs h d names \<and> int (length names) \<le> k + 1 \<longrightarrow>
        (\<exists>l. chain_line fs d p names l \<and> Print l \<in> set evs))"

definition covered_item ::
  "filesystem \<Rightarrow> bool \<Rightarrow> string \<Rightarrow> string \<Rightarrow> int \<Rightarrow> string \<Rightarrow> event list \<Rightarrow> bool" where
  "covered_item fs h d p k item evs \<longleftrightarrow>
     (\<exists>b. Print (entry_line fs d p b item) \<in> set evs) \<and>
     (fs_isdir fs (join d item) \<longrightarrow>
        (\<exists>block \<in> {indent_last, indent_mid}.
           covered fs h (join d item) (p @ block) (k - 1) evs))"

text \<open>
  What follows the indentation blocks and the connector in a line: the name of the entry
  and its slash.
\<close>

function after_connector :: "string \<Rightarrow> string" where
  "after_connector line =
     (if startswith line indent_last
      then after_connector (drop (length indent_last) line)
      else if startswith line indent_mid
      then after_connector (drop (length indent_mid) line)
      else drop (length connector_mid) line)"
  by pat_completeness auto

termination
proof (relation "measure length")
  show "wf (measure length)" by simp
next
  fix line :: string
  assume "startswith line indent_last"
  then have "line \<noteq> []" by (cases line) (simp_all add: indent_last_def)
  then show "(drop (length indent_last) line, line) \<in> measure length"
    by (simp add: indent_last_def)
next
  fix line :: string
  assume "startswith line indent_mid"
  then have "line \<noteq> []" by (cases line) (simp_all add: indent_mid_def)
  then show "(drop (length indent_mid) line, line) \<in> measure length"
    by (simp add: indent_mid_def)
qed

declare after_connector.simps [simp del]

text \<open>A tree with a dotfile inside a subdirectory.\<close>

definition scenario_C :: filesystem where
  "scenario_C =
     mk_fs [(''root'', Inr [''sub'', ''.git'']),
            (''root/sub'', Inr [''.env'', ''c.txt'']),
            (''root/.git'', Inr [''config''])]
       ''/home/user/project''"

section \<open>Basic facts\<close>

lemmas run_simps =
  print_tree_def print_directory.simps join_def endswith_def mk_fs_def Let_def basename_def
  connector_mid_def connector_last_def indent_mid_def indent_last_def

lemma stdout_append: "stdout (xs @ ys) = stdout xs @ stdout ys"
  by (induction xs rule: stdout.induct) auto

lemma listed_append: "listed (xs @ ys) = listed xs @ listed ys"
  by (induction xs rule: listed.induct) auto

lemma snd_then_run: "snd (then_run a b) = None \<longleftrightarrow> snd a = None \<and> snd b = None"
  by (cases a; cases b; cases "snd a") auto

lemma fst_then_run_None: "snd a = None \<Longrightarrow> fst (then_run a b) = fst a @ fst b"
  by (cases a; cases b) auto

lemma then_run_unit: "then_run ([], None) b = b"
  by (cases b) auto

lemma print_directory_beyond:
  "max_depth < current_depth \<Longrightarrow>
   print_directory fs directory prefix include_dotfiles max_depth current_depth = ([], None)"
  by (simp add: print_directory.simps)

section \<open>The header\<close>

text \<open>
  C6. Whatever directory is traversed and whatever the options, the first thing
  \<^verbatim>\<open>print_tree\<close> does is print the base name of the working directory followed by
  \<^verbatim>\<open>/\<close>; the traversal of the given directory follows. The header does not depend on
  the directory traversed.
\<close>

theorem header_is_working_directory:
  "fst (print_tree fs directory prefix include_dotfiles max_depth) =
     Print (basename (fs_getcwd fs) @ ''/'') #
     fst (print_directory fs directory prefix include_dotfiles max_depth 0)"
  by (cases "print_directory fs directory prefix include_dotfiles max_depth 0")
    (simp add: print_tree_def)

text \<open>
  C9. With a negative maximal depth \<^verbatim>\<open>print_tree\<close> prints the header and nothing else,
  and lists no directory: the test \<^verbatim>\<open>current_depth > max_depth\<close> holds at depth 0.
\<close>

theorem negative_max_depth:
  "max_depth < 0 \<Longrightarrow>
   print_tree fs directory prefix include_dotfiles max_depth =
     ([Print (basename (fs_getcwd fs) @ ''/'')], None) \<and>
   stdout (fst (print_tree fs directory prefix include_dotfiles max_depth)) =
     [basename (fs_getcwd fs) @ ''/''] \<and>
   listed (fst (print_tree fs directory prefix include_dotfiles max_depth)) = []"
  by (simp add: print_tree_def print_directory_beyond)

theorem negative_max_depth_witness:
  "(- 1 :: int) < 0 \<and>
   print_tree scenario_A ''root'' [] False (- 1) = ([Print ''project/''], None) \<and>
   stdout (fst (print_tree scenario_A ''root'' [] False (- 1))) = [''project/''] \<and>
   listed (fst (print_tree scenario_A ''root'' [] False (- 1))) = []"
  using negative_max_depth [of "- 1" scenario_A "''root''" "[]" False]
  by (simp add: scenario_A_def mk_fs_def basename_def)

section \<open>Scenario A\<close>



section \<open>The depth limit\<close>

lemma stdout_map_Print: "stdout (map Print ls) = ls"
  by (induction ls) auto

lemma level_lines_Nil: "level_lines fs d p [] = []"
  by (simp add: level_lines_def)

lemma level_lines_Cons:
  "level_lines fs d p (item # rest) =
     (if rest = [] then [entry_line fs d p True item]
      else entry_line fs d p False item # level_lines fs d p rest)"
  by (simp add: level_lines_def)

lemma two_levels_Cons:
  "two_levels fs h d p (item # rest) =
     (if rest = [] then entry_and_children fs h d p True item
      else entry_and_children fs h d p False item @ two_levels fs h d p rest)"
  by (simp add: two_levels_def)

text \<open>
  The loop in a directory at the maximal depth (or beyond): every recursive call returns
  at once, so the loop prints one line for each item.
\<close>

lemma print_items_at_limit:
  "max_depth \<le> current_depth \<Longrightarrow> index + length items = count \<Longrightarrow>
   print_items fs d p h max_depth current_depth count index items =
     (map Print (level_lines fs d p items), None)"
proof (induction items arbitrary: index)
  case Nil
  show ?case by (simp add: level_lines_Nil)
next
  case (Cons item rest)
  have last: "(int index = int count - 1) \<longleftrightarrow> rest = []"
    using Cons.prems(2) by auto
  have deeper:
    "print_directory fs (join d item) q h max_depth (current_depth + 1) = ([], None)" for q
    using Cons.prems(1) by (simp add: print_directory_beyond)
  have rest: "print_items fs d p h max_depth current_depth count (Suc index) rest =
     (map Print (level_lines fs d p rest), None)"
    using Cons.IH [of "Suc index"] Cons.prems by simp
  show ?case
    by (simp add: Let_def deeper rest last level_lines_Cons level_lines_Nil entry_line_def)
qed

lemma print_directory_at_limit:
  "fs_listdir fs d = Inr listing \<Longrightarrow>
   print_directory fs d p h max_depth max_depth =
     (Listdir d # map Print (level_lines fs d p (entries fs h d)), None)"
  by (simp add: print_directory.simps Let_def print_items_at_limit entries_def)

lemma print_directory_None_listing:
  "snd (print_directory fs d p h md cd) = None \<Longrightarrow> cd \<le> md \<Longrightarrow>
   \<exists>listing. fs_listdir fs d = Inr listing"
  by (cases "fs_listdir fs d") (auto simp: print_directory.simps)

lemma stdout_at_limit:
  "snd (print_directory fs d p h md md) = None \<Longrightarrow>
   stdout (fst (print_directory fs d p h md md)) = level_lines fs d p (entries fs h d)"
  using print_directory_None_listing [of fs d p h md md]
  by (auto simp: print_directory_at_limit stdout_map_Print)

text \<open>
  The loop in a directory one level above the maximal depth: each item prints its line and,
  when it is a directory, one line for each of its own items.
\<close>

lemma print_items_below_limit:
  "current_depth + 1 = max_depth \<Longrightarrow> index + length items = count \<Longrightarrow>
   snd (print_items fs d p h max_depth current_depth count index items) = None \<Longrightarrow>
   stdout (fst (print_items fs d p h max_depth current_depth count index items)) =
     two_levels fs h d p items"
proof (induction items arbitrary: index)
  case Nil
  show ?case by (simp add: two_levels_def)
next
  case (Cons item rest)
  let ?last = "int index = int count - 1"
  let ?sub = "if fs_isdir fs (join d item)
     then print_directory fs (join d item) (p @ (if ?last then indent_last else indent_mid)) h
            max_depth (current_depth + 1)
     else ([], None)"
  let ?rest = "print_items fs d p h max_depth current_depth count (Suc index) rest"
  have last: "?last \<longleftrightarrow> rest = []"
    using Cons.prems(2) by auto
  have unfold: "print_items fs d p h max_depth current_depth count index (item # rest) =
     then_run ([Print (entry_line fs d p ?last item)], None) (then_run ?sub ?rest)"
    by (simp add: Let_def entry_line_def)
  from Cons.prems(3) have sub_ok: "snd ?sub = None" and rest_ok: "snd ?rest = None"
    unfolding unfold by (simp_all add: snd_then_run)
  have rest: "stdout (fst ?rest) = two_levels fs h d p rest"
    using Cons.IH [of "Suc index"] Cons.prems(1,2) rest_ok by simp
  have sub: "stdout (fst ?sub) =
     (if fs_isdir fs (join d item)
      then level_lines fs (join d item) (p @ (if ?last then indent_last else indent_mid))
             (entries fs h (join d item))
      else [])"
    using sub_ok Cons.prems(1) by (auto simp: stdout_at_limit)
  have "stdout (fst (print_items fs d p h max_depth current_depth count index (item # rest))) =
     entry_line fs d p ?last item # stdout (fst ?sub) @ stdout (fst ?rest)"
    unfolding unfold using sub_ok rest_ok
    by (simp add: fst_then_run_None snd_then_run stdout_append)
  also have "\<dots> = two_levels fs h d p (item # rest)"
    unfolding sub rest using last
    by (cases "rest = []") (simp_all add: two_levels_Cons entry_and_children_def two_levels_def)
  finally show ?case .
qed

text \<open>
  C1, as the program has it. With \<open>max_depth = 1\<close> a run of \<^verbatim>\<open>print_tree\<close> that
  raises nothing prints the header and then, for each item of the root, the line of the
  item followed, when the item is a directory, by one line for each item of that
  directory. So the children of a subdirectory of the root are printed, one block deeper;
  it is below them that nothing is printed: a directory among them has its line, with
  \<^verbatim>\<open>/\<close>, and none of its own children has one.
\<close>

theorem max_depth_one_lists_two_levels:
  "snd (print_tree fs root p h 1) = None \<Longrightarrow>
   stdout (fst (print_tree fs root p h 1)) =
     (basename (fs_getcwd fs) @ ''/'') # two_levels fs h root p (entries fs h root)"
proof -
  assume ok: "snd (print_tree fs root p h 1) = None"
  then have ok': "snd (print_directory fs root p h 1 0) = None"
    by (simp add: print_tree_def snd_then_run)
  then obtain listing where listing: "fs_listdir fs root = Inr listing"
    using print_directory_None_listing [of fs root p h 1 0] by auto
  let ?items = "entries fs h root"
  have dir: "print_directory fs root p h 1 0 =
     then_run ([Listdir root], None) (print_items fs root p h 1 0 (length ?items) 0 ?items)"
    using listing by (simp add: print_directory.simps Let_def entries_def)
  from ok' have items_ok: "snd (print_items fs root p h 1 0 (length ?items) 0 ?items) = None"
    unfolding dir by (simp add: snd_then_run)
  have "stdout (fst (print_items fs root p h 1 0 (length ?items) 0 ?items)) =
     two_levels fs h root p ?items"
    using items_ok by (intro print_items_below_limit) simp_all
  then have "stdout (fst (print_directory fs root p h 1 0)) = two_levels fs h root p ?items"
    unfolding dir using items_ok by (simp add: fst_then_run_None stdout_append)
  then show ?thesis
    using ok' by (simp add: print_tree_def fst_then_run_None stdout_append)
qed

theorem max_depth_one_lists_two_levels_witness:
  "snd (print_tree scenario_B ''root'' [] False 1) = None \<and>
   stdout (fst (print_tree scenario_B ''root'' [] False 1)) =
     [''project/'',
      connector_mid @ ''a.txt'',
      connector_mid @ ''sub/'',
      indent_mid @ connector_mid @ ''c.txt'',
      indent_mid @ connector_last @ ''deep/'',
      connector_last @ ''b.txt'']"
proof -
  have ok: "snd (print_tree scenario_B ''root'' [] False 1) = None"
    by (simp add: scenario_B_def run_simps)
  show ?thesis
    using ok max_depth_one_lists_two_levels [OF ok]
    by (simp add: scenario_B_def mk_fs_def two_levels_def entry_and_children_def level_lines_def
        entries_def entry_line_def join_def endswith_def basename_def)
qed

text \<open>
  On the tree of Scenario A with \<open>max_depth = 1\<close>: \<^verbatim>\<open>sub\<close> is an item of the
  root and a directory, \<^verbatim>\<open>c.txt\<close> is an item of \<^verbatim>\<open>sub\<close>, and the line of
  \<^verbatim>\<open>c.txt\<close> is the last line of the output.
\<close>

theorem max_depth_one_counterexample:
  "''sub'' \<in> set (entries scenario_A False ''root'') \<and>
   fs_isdir scenario_A (join ''root'' ''sub'') \<and>
   ''c.txt'' \<in> set (entries scenario_A False (join ''root'' ''sub'')) \<and>
   stdout (fst (print_tree scenario_A ''root'' [] False 1)) =
     [''project/'',
      connector_mid @ ''a.txt'',
      connector_mid @ ''b.txt'',
      connector_last @ ''sub/'',
      indent_last @ connector_last @ ''c.txt'']"
  by (simp add: scenario_A_def run_simps entries_def)

section \<open>Failing listings\<close>









section \<open>Prefixes of the printed lines\<close>

lemma startswith_iff: "startswith l q \<longleftrightarrow> (\<exists>rest. l = q @ rest)"
  by (induction l q rule: startswith.induct) auto

lemma startswith_append_same: "startswith (p @ s) (p @ q) = startswith s q"
  by (induction p) auto

lemma startswith_appendD: "startswith l (q @ r) \<Longrightarrow> startswith l q"
  by (auto simp: startswith_iff)

lemma at_level_entry_line: "at_level p (entry_line fs d p b item)"
  by (simp add: at_level_def entry_line_def startswith_append_same connector_mid_def
      connector_last_def)

lemma not_at_level_indented:
  "\<not> at_level p (p @ (if b then indent_last else indent_mid) @ rest)"
  by (cases b)
    (simp_all add: at_level_def startswith_append_same connector_mid_def
      connector_last_def indent_mid_def indent_last_def)

lemma not_at_level_deeper:
  "startswith l (p @ (if b then indent_last else indent_mid)) \<Longrightarrow> \<not> at_level p l"
  using not_at_level_indented [of p b] by (auto simp: startswith_iff)

lemma lines_start_with_prefix:
  "\<forall>l \<in> set (stdout (fst (print_directory fs d p h md cd))). startswith l p"
  "\<forall>l \<in> set (stdout (fst (print_items fs d p h md cd n i items))). startswith l p"
proof (induction fs d p h md cd and fs d p h md cd n i items
    rule: print_directory_print_items.induct)
  case (1 fs directory prefix include_dotfiles max_depth current_depth)
  show ?case
  proof (cases "max_depth < current_depth")
    case True
    then show ?thesis by (simp add: print_directory_beyond)
  next
    case False
    show ?thesis
    proof (cases "fs_listdir fs directory")
      case (Inl e)
      with False show ?thesis by (simp add: print_directory.simps)
    next
      case (Inr listing)
      let ?items = "if \<not> include_dotfiles
          then filter (\<lambda>item. \<not> startswith item ''.'') listing else listing"
      let ?loop = "print_items fs directory prefix include_dotfiles max_depth current_depth
             (length ?items) 0 ?items"
      have unfold: "print_directory fs directory prefix include_dotfiles max_depth current_depth =
        then_run ([Listdir directory], None) ?loop"
        using False Inr by (simp add: print_directory.simps Let_def)
      have "stdout (fst (then_run ([Listdir directory], None) ?loop)) = stdout (fst ?loop)"
        by (cases ?loop) simp
      then show ?thesis
        unfolding unfold using "1.IH" [OF False Inr refl refl] by simp
    qed
  qed
next
  case (2 fs directory prefix include_dotfiles max_depth current_depth count index)
  show ?case by simp
next
  case (3 fs directory prefix include_dotfiles max_depth current_depth count index item rest)
  let ?last = "int index = int count - 1"
  let ?sub = "if fs_isdir fs (join directory item)
     then print_directory fs (join directory item)
            (prefix @ (if ?last then indent_last else indent_mid)) include_dotfiles
            max_depth (current_depth + 1)
     else ([], None)"
  let ?rest = "print_items fs directory prefix include_dotfiles max_depth current_depth count
     (Suc index) rest"
  let ?line = "([Print (entry_line fs directory prefix ?last item)], None :: exn option)"
  have unfold: "print_items fs directory prefix include_dotfiles max_depth current_depth count
      index (item # rest) = then_run ?line (then_run ?sub ?rest)"
    by (simp add: Let_def entry_line_def)
  have sub: "\<forall>l \<in> set (stdout (fst ?sub)). startswith l prefix"
  proof (cases "fs_isdir fs (join directory item)")
    case True
    show ?thesis
      using "3.IH"(1) [OF refl refl True] True by (simp only: if_True) (meson startswith_appendD)
  next
    case False
    then show ?thesis by simp
  qed
  have rest: "\<forall>l \<in> set (stdout (fst ?rest)). startswith l prefix"
    using "3.IH"(2) [OF refl refl] .
  have line: "startswith (entry_line fs directory prefix ?last item) prefix"
    by (simp add: entry_line_def startswith_iff)
  have "set (stdout (fst (then_run ?line (then_run ?sub ?rest)))) \<subseteq>
      {entry_line fs directory prefix ?last item} \<union> set (stdout (fst ?sub)) \<union>
      set (stdout (fst ?rest))"
    by (cases ?sub; cases ?rest; cases "snd ?sub") (auto simp: stdout_append)
  then show ?case
    unfolding unfold using sub rest line by blast
qed

section \<open>The lines of one directory\<close>

lemma filter_at_level_none:
  "\<forall>l \<in> set ls. startswith l (p @ (if b then indent_last else indent_mid)) \<Longrightarrow>
   filter (at_level p) ls = []"
  using not_at_level_deeper [of _ p b] by (auto simp: filter_empty_conv)


lemma print_items_direct_lines:
  "index + length items = count \<Longrightarrow>
   snd (print_items fs d p h md cd count index items) = None \<Longrightarrow>
   filter (at_level p) (stdout (fst (print_items fs d p h md cd count index items))) =
     level_lines fs d p items"
proof (induction items arbitrary: index)
  case Nil
  show ?case by (simp add: level_lines_Nil)
next
  case (Cons item rest)
  let ?last = "int index = int count - 1"
  let ?sub = "if fs_isdir fs (join d item)
     then print_directory fs (join d item) (p @ (if ?last then indent_last else indent_mid)) h
            md (cd + 1)
     else ([], None)"
  let ?rest = "print_items fs d p h md cd count (Suc index) rest"
  have last: "?last \<longleftrightarrow> rest = []"
    using Cons.prems(1) by auto
  have unfold: "print_items fs d p h md cd count index (item # rest) =
     then_run ([Print (entry_line fs d p ?last item)], None) (then_run ?sub ?rest)"
    by (simp add: Let_def entry_line_def)
  from Cons.prems(2) have sub_ok: "snd ?sub = None" and rest_ok: "snd ?rest = None"
    unfolding unfold by (simp_all add: snd_then_run)
  have rest: "filter (at_level p) (stdout (fst ?rest)) = level_lines fs d p rest"
    using Cons.IH [of "Suc index"] Cons.prems(1) rest_ok by simp
  have "\<forall>l \<in> set (stdout (fst ?sub)).
      startswith l (p @ (if ?last then indent_last else indent_mid))"
    using lines_start_with_prefix(1)
      [of fs "join d item" "p @ (if ?last then indent_last else indent_mid)" h md "cd + 1"]
    by (cases "fs_isdir fs (join d item)") simp_all
  then have sub: "filter (at_level p) (stdout (fst ?sub)) = []"
    by (rule filter_at_level_none)
  have "stdout (fst (print_items fs d p h md cd count index (item # rest))) =
     entry_line fs d p ?last item # stdout (fst ?sub) @ stdout (fst ?rest)"
    unfolding unfold using sub_ok rest_ok
    by (simp add: fst_then_run_None snd_then_run stdout_append)
  then have "filter (at_level p)
      (stdout (fst (print_items fs d p h md cd count index (item # rest)))) =
     entry_line fs d p ?last item # level_lines fs d p rest"
    using sub rest by (simp add: at_level_entry_line)
  also have "\<dots> = level_lines fs d p (item # rest)"
    using last by (simp add: level_lines_Cons level_lines_Nil)
  finally show ?case .
qed


lemma print_directory_direct_lines:
  assumes ok: "snd (print_directory fs d p h md cd) = None" and depth: "cd \<le> md"
  shows "filter (at_level p) (stdout (fst (print_directory fs d p h md cd))) =
     level_lines fs d p (entries fs h d)"
proof -
  obtain listing where listing: "fs_listdir fs d = Inr listing"
    using print_directory_None_listing [OF ok depth] by auto
  let ?items = "entries fs h d"
  let ?loop = "print_items fs d p h md cd (length ?items) 0 ?items"
  have dir: "print_directory fs d p h md cd = then_run ([Listdir d], None) ?loop"
    using listing depth by (simp add: print_directory.simps Let_def entries_def)
  from ok have loop_ok: "snd ?loop = None"
    unfolding dir by (simp add: snd_then_run)
  have "filter (at_level p) (stdout (fst ?loop)) = level_lines fs d p ?items"
    using loop_ok by (intro print_items_direct_lines) simp_all
  then show ?thesis
    unfolding dir using loop_ok by (simp add: fst_then_run_None stdout_append)
qed

text \<open>
  C5. In a call of \<^verbatim>\<open>print_directory\<close> that lists its directory and raises
  nothing, the lines at the level of the call, which are the lines of the items of the
  directory after the dotfile filter, are: one line with the middle connector for each
  item but the last, in listing order, and then one line with the last connector for the
  last item. No line has both connectors behind the prefix.
\<close>

theorem connectors_within_a_directory:
  "snd (print_directory fs d p h md cd) = None \<Longrightarrow> cd \<le> md \<Longrightarrow>
   filter (at_level p) (stdout (fst (print_directory fs d p h md cd))) =
     map (\<lambda>item. p @ connector_mid @ item @ (if fs_isdir fs (join d item) then ''/'' else []))
       (butlast (entries fs h d)) @
     (if entries fs h d = [] then []
      else [p @ connector_last @ last (entries fs h d) @
            (if fs_isdir fs (join d (last (entries fs h d))) then ''/'' else [])]) \<and>
   (\<forall>l. \<not> (startswith l (p @ connector_mid) \<and> startswith l (p @ connector_last)))"
proof -
  assume ok: "snd (print_directory fs d p h md cd) = None" and depth: "cd \<le> md"
  have one: "\<not> (startswith l (p @ connector_mid) \<and> startswith l (p @ connector_last))" for l
    by (auto simp: startswith_iff connector_mid_def connector_last_def)
  show ?thesis
    using print_directory_direct_lines [OF ok depth] one
    by (simp add: level_lines_def entry_line_def)
qed

theorem connectors_within_a_directory_witness:
  "snd (print_directory scenario_B ''root'' [] False 10 0) = None \<and> (0 :: int) \<le> 10 \<and>
   filter (at_level []) (stdout (fst (print_directory scenario_B ''root'' [] False 10 0))) =
     [connector_mid @ ''a.txt'', connector_mid @ ''sub/'', connector_last @ ''b.txt'']"
proof -
  have ok: "snd (print_directory scenario_B ''root'' [] False 10 0) = None"
    by (simp add: scenario_B_def run_simps)
  show ?thesis
    using ok connectors_within_a_directory [of scenario_B "''root''" "[]" False 10 0]
    by (simp add: scenario_B_def mk_fs_def entries_def join_def endswith_def)
qed

section \<open>Dotfiles\<close>

lemma hidden_as_absent:
  "h = False \<Longrightarrow> print_directory fs d p h md cd = print_directory (without_dotfiles fs) d p True md cd"
  "h = False \<Longrightarrow> print_items fs d p h md cd n i items =
     print_items (without_dotfiles fs) d p True md cd n i items"
proof (induction fs d p h md cd and fs d p h md cd n i items
    rule: print_directory_print_items.induct)
  case (1 fs directory prefix include_dotfiles max_depth current_depth)
  show ?case
  proof (cases "max_depth < current_depth")
    case True
    then show ?thesis by (simp add: print_directory_beyond)
  next
    case False
    show ?thesis
    proof (cases "fs_listdir fs directory")
      case (Inl e)
      with False show ?thesis by (simp add: print_directory.simps without_dotfiles_def)
    next
      case (Inr listing)
      let ?visible = "filter (\<lambda>item. \<not> startswith item ''.'') listing"
      have hidden: "include_dotfiles = False"
        using "1.prems" .
      have listing': "fs_listdir (without_dotfiles fs) directory = Inr ?visible"
        using Inr by (simp add: without_dotfiles_def)
      have left: "print_directory fs directory prefix include_dotfiles max_depth current_depth =
          then_run ([Listdir directory], None)
            (print_items fs directory prefix include_dotfiles max_depth current_depth
               (length ?visible) 0 ?visible)"
        using False Inr hidden by (simp add: print_directory.simps Let_def)
      have right: "print_directory (without_dotfiles fs) directory prefix True max_depth
            current_depth =
          then_run ([Listdir directory], None)
            (print_items (without_dotfiles fs) directory prefix True max_depth current_depth
               (length ?visible) 0 ?visible)"
        using False listing' by (simp add: print_directory.simps Let_def)
      have "print_items fs directory prefix include_dotfiles max_depth current_depth
               (length ?visible) 0 ?visible =
            print_items (without_dotfiles fs) directory prefix True max_depth current_depth
               (length ?visible) 0 ?visible"
        using "1.IH" [OF False Inr _ refl hidden] hidden by simp
      then show ?thesis
        unfolding left right by simp
    qed
  qed
next
  case (2 fs directory prefix include_dotfiles max_depth current_depth count index)
  show ?case by simp
next
  case (3 fs directory prefix include_dotfiles max_depth current_depth count index item rest)
  have isdir: "fs_isdir (without_dotfiles fs) x = fs_isdir fs x" for x
    by (simp add: without_dotfiles_def)
  show ?case
    using "3.IH"(1) [OF refl refl _ "3.prems"] "3.IH"(2) [OF refl refl "3.prems"] "3.prems"
    by (simp add: Let_def isdir)
qed

lemma set_level_lines:
  "set (level_lines fs d p items) \<subseteq> {entry_line fs d p b x |b x. x \<in> set items}"
  by (cases items rule: rev_cases) (auto simp: level_lines_def)

lemma level_lines_has_each:
  "x \<in> set items \<Longrightarrow> \<exists>b. entry_line fs d p b x \<in> set (level_lines fs d p items)"
  by (cases items rule: rev_cases) (auto simp: level_lines_def)

lemma entry_line_dot:
  "entry_line fs d p b item = entry_line fs d p b' x \<Longrightarrow> startswith item ''.'' \<Longrightarrow>
   startswith x ''.''"
  by (cases item; cases x; cases b; cases b')
    (auto simp: entry_line_def connector_mid_def connector_last_def split: if_splits)

text \<open>
  In one call: a dot item of the directory of the call has its line in the output of the
  call exactly when dotfiles are included.
\<close>

lemma dotfile_line_in_directory:
  "print_directory fs d p False md cd = print_directory (without_dotfiles fs) d p True md cd \<and>
   (snd (print_directory fs d p h md cd) = None \<and> cd \<le> md \<and>
    fs_listdir fs d = Inr listing \<and> item \<in> set listing \<and> startswith item ''.'' \<longrightarrow>
    ((\<exists>is_last. entry_line fs d p is_last item \<in>
        set (stdout (fst (print_directory fs d p h md cd)))) \<longleftrightarrow> h))"
proof (intro conjI impI)
  show "print_directory fs d p False md cd = print_directory (without_dotfiles fs) d p True md cd"
    by (rule hidden_as_absent(1)) simp
next
  assume asm: "snd (print_directory fs d p h md cd) = None \<and> cd \<le> md \<and>
    fs_listdir fs d = Inr listing \<and> item \<in> set listing \<and> startswith item ''.''"
  then have ok: "snd (print_directory fs d p h md cd) = None" and depth: "cd \<le> md"
    and listing: "fs_listdir fs d = Inr listing" and item: "item \<in> set listing"
    and dot: "startswith item ''.''"
    by simp_all
  have direct: "filter (at_level p) (stdout (fst (print_directory fs d p h md cd))) =
     level_lines fs d p (entries fs h d)"
    by (rule print_directory_direct_lines [OF ok depth])
  have mem: "entry_line fs d p b item \<in> set (stdout (fst (print_directory fs d p h md cd))) \<longleftrightarrow>
     entry_line fs d p b item \<in> set (level_lines fs d p (entries fs h d))" for b
    unfolding direct [symmetric] by (simp add: at_level_entry_line)
  show "(\<exists>is_last. entry_line fs d p is_last item \<in>
        set (stdout (fst (print_directory fs d p h md cd)))) \<longleftrightarrow> h"
  proof (cases h)
    case True
    then have "item \<in> set (entries fs h d)"
      using listing item by (simp add: entries_def)
    then obtain b where "entry_line fs d p b item \<in> set (level_lines fs d p (entries fs h d))"
      using level_lines_has_each [of item "entries fs h d" fs d p] by blast
    then have "entry_line fs d p b item \<in> set (stdout (fst (print_directory fs d p h md cd)))"
      by (simp only: mem)
    then show ?thesis
      using True by blast
  next
    case False
    have "entry_line fs d p b item \<notin> set (level_lines fs d p (entries fs h d))" for b
    proof
      assume "entry_line fs d p b item \<in> set (level_lines fs d p (entries fs h d))"
      then obtain b' x where x: "x \<in> set (entries fs h d)"
        and eq: "entry_line fs d p b item = entry_line fs d p b' x"
        using set_level_lines [of fs d p "entries fs h d"] by blast
      from x False listing have "\<not> startswith x ''.''"
        by (simp add: entries_def)
      then show False
        using entry_line_dot [OF eq dot] by simp
    qed
    then have "entry_line fs d p b item \<notin>
        set (stdout (fst (print_directory fs d p h md cd)))" for b
      by (simp only: mem not_False_eq_True)
    then show ?thesis
      using False by blast
  qed
qed

section \<open>Indentation and depth\<close>

lemma line_depth_connector:
  "line_depth ((if b then connector_last else connector_mid) @ rest) = 0"
proof -
  let ?line = "(if b then connector_last else connector_mid) @ rest"
  have "\<not> startswith ?line indent_last" and "\<not> startswith ?line indent_mid"
    by (cases b; simp add: connector_last_def connector_mid_def indent_last_def
        indent_mid_def)+
  then show ?thesis
    by (subst line_depth.simps) simp
qed

lemma line_depth_indent_last: "line_depth (indent_last @ rest) = Suc (line_depth rest)"
  by (subst line_depth.simps) (simp add: startswith_iff)

lemma line_depth_indent_mid: "line_depth (indent_mid @ rest) = Suc (line_depth rest)"
proof -
  have "\<not> startswith (indent_mid @ rest) indent_last"
    by (simp add: indent_mid_def indent_last_def)
  then show ?thesis
    by (subst line_depth.simps) (simp add: startswith_iff)
qed

lemma line_depth_blocks:
  "set blocks \<subseteq> {indent_last, indent_mid} \<Longrightarrow>
   line_depth (concat blocks @ (if b then connector_last else connector_mid) @ rest) =
     length blocks"
proof (induction blocks)
  case Nil
  show ?case by (simp add: line_depth_connector)
next
  case (Cons block blocks)
  then have "block = indent_last \<or> block = indent_mid" by simp
  then show ?case
    using Cons by (auto simp: line_depth_indent_last line_depth_indent_mid)
qed

lemma line_depth_entry_line:
  "set blocks \<subseteq> {indent_last, indent_mid} \<Longrightarrow>
   line_depth (entry_line fs d (concat blocks) b item) = length blocks"
  using line_depth_blocks [of blocks b] by (simp add: entry_line_def)

lemma line_of_chain_direct:
  "item \<in> set (entries fs h d) \<Longrightarrow> line_of_chain fs h d p (entry_line fs d p b item)"
  unfolding line_of_chain_def
  by (rule exI [of _ "[item]"], rule exI [of _ "[]"], rule exI [of _ b]) simp

lemma line_of_chain_below:
  assumes item: "item \<in> set (entries fs h d)" and dir: "fs_isdir fs (join d item)"
    and block: "block \<in> {indent_last, indent_mid}"
    and below: "line_of_chain fs h (join d item) (p @ block) l"
  shows "line_of_chain fs h d p l"
proof -
  from below obtain names blocks is_last where
    chain: "entry_chain fs h (join d item) names" and
    blocks: "set blocks \<subseteq> {indent_last, indent_mid}" and
    len: "length names = Suc (length blocks)" and
    l: "l = entry_line fs (foldl join (join d item) (butlast names))
           ((p @ block) @ concat blocks) is_last (last names)"
    unfolding line_of_chain_def by blast
  from len obtain name others where names: "names = name # others"
    by (cases names) auto
  have "entry_chain fs h d (item # names)"
    using item dir chain names by simp
  moreover have "set (block # blocks) \<subseteq> {indent_last, indent_mid}"
    using block blocks by simp
  moreover have "length (item # names) = Suc (length (block # blocks))"
    using len by simp
  moreover have "l = entry_line fs (foldl join d (butlast (item # names)))
      (p @ concat (block # blocks)) is_last (last (item # names))"
    using l names by simp
  ultimately show ?thesis
    unfolding line_of_chain_def by blast
qed

lemma lines_come_from_chains:
  "\<forall>l \<in> set (stdout (fst (print_directory fs d p h md cd))). line_of_chain fs h d p l"
  "set items \<subseteq> set (entries fs h d) \<Longrightarrow>
   \<forall>l \<in> set (stdout (fst (print_items fs d p h md cd n i items))). line_of_chain fs h d p l"
proof (induction fs d p h md cd and fs d p h md cd n i items
    rule: print_directory_print_items.induct)
  case (1 fs directory prefix include_dotfiles max_depth current_depth)
  show ?case
  proof (cases "max_depth < current_depth")
    case True
    then show ?thesis by (simp add: print_directory_beyond)
  next
    case False
    show ?thesis
    proof (cases "fs_listdir fs directory")
      case (Inl e)
      with False show ?thesis by (simp add: print_directory.simps)
    next
      case (Inr listing)
      let ?items = "if \<not> include_dotfiles
          then filter (\<lambda>item. \<not> startswith item ''.'') listing else listing"
      let ?loop = "print_items fs directory prefix include_dotfiles max_depth current_depth
             (length ?items) 0 ?items"
      have items: "?items = entries fs include_dotfiles directory"
        using Inr by (simp add: entries_def)
      have unfold: "print_directory fs directory prefix include_dotfiles max_depth current_depth =
        then_run ([Listdir directory], None) ?loop"
        using False Inr by (simp add: print_directory.simps Let_def)
      have out: "stdout (fst (then_run ([Listdir directory], None) ?loop)) = stdout (fst ?loop)"
        by (cases ?loop) simp
      have "\<forall>l \<in> set (stdout (fst ?loop)).
          line_of_chain fs include_dotfiles directory prefix l"
        by (rule "1.IH" [OF False Inr refl refl]) (simp only: items subset_refl)
      then show ?thesis
        unfolding unfold out .
    qed
  qed
next
  case (2 fs directory prefix include_dotfiles max_depth current_depth count index)
  show ?case by simp
next
  case (3 fs directory prefix include_dotfiles max_depth current_depth count index item rest)
  let ?last = "int index = int count - 1"
  let ?block = "if ?last then indent_last else indent_mid"
  let ?sub = "if fs_isdir fs (join directory item)
     then print_directory fs (join directory item) (prefix @ ?block) include_dotfiles
            max_depth (current_depth + 1)
     else ([], None)"
  let ?rest = "print_items fs directory prefix include_dotfiles max_depth current_depth count
     (Suc index) rest"
  let ?line = "([Print (entry_line fs directory prefix ?last item)], None :: exn option)"
  from "3.prems" have item: "item \<in> set (entries fs include_dotfiles directory)"
    and rest_in: "set rest \<subseteq> set (entries fs include_dotfiles directory)"
    by simp_all
  have unfold: "print_items fs directory prefix include_dotfiles max_depth current_depth count
      index (item # rest) = then_run ?line (then_run ?sub ?rest)"
    by (simp add: Let_def entry_line_def)
  have sub: "\<forall>l \<in> set (stdout (fst ?sub)). line_of_chain fs include_dotfiles directory prefix l"
  proof (cases "fs_isdir fs (join directory item)")
    case True
    have "\<forall>l \<in> set (stdout (fst ?sub)).
        line_of_chain fs include_dotfiles (join directory item) (prefix @ ?block) l"
      using "3.IH"(1) [OF refl refl True] True by simp
    moreover have "?block \<in> {indent_last, indent_mid}" by simp
    ultimately show ?thesis
      using line_of_chain_below [OF item True] by blast
  next
    case False
    then show ?thesis by simp
  qed
  have rest: "\<forall>l \<in> set (stdout (fst ?rest)).
      line_of_chain fs include_dotfiles directory prefix l"
    using "3.IH"(2) [OF refl refl rest_in] .
  have line: "line_of_chain fs include_dotfiles directory prefix
      (entry_line fs directory prefix ?last item)"
    by (rule line_of_chain_direct [OF item])
  have "set (stdout (fst (then_run ?line (then_run ?sub ?rest)))) \<subseteq>
      {entry_line fs directory prefix ?last item} \<union> set (stdout (fst ?sub)) \<union>
      set (stdout (fst ?rest))"
    by (cases ?sub; cases ?rest; cases "snd ?sub") (auto simp: stdout_append)
  then show ?case
    unfolding unfold using sub rest line by blast
qed

text \<open>
  C10. Every line that \<^verbatim>\<open>print_tree\<close> prints after the header, started with the
  empty prefix, is the line of an entry below the root whose prefix is made of
  indentation blocks, each four spaces or the bar and three spaces, exactly as many as
  there are directories between the root and the entry. The number of blocks is read off
  the line by \<open>line_depth\<close>; an item of the root itself has no block.
\<close>

theorem indentation_is_depth:
  "\<forall>l \<in> set (tl (stdout (fst (print_tree fs root [] h md)))).
     \<exists>names blocks is_last.
       entry_chain fs h root names \<and>
       set blocks \<subseteq> {indent_last, indent_mid} \<and>
       length blocks = length names - 1 \<and>
       l = entry_line fs (foldl join root (butlast names)) (concat blocks) is_last (last names) \<and>
       line_depth l = length blocks"
proof
  fix l
  assume "l \<in> set (tl (stdout (fst (print_tree fs root [] h md))))"
  moreover have "stdout (fst (print_tree fs root [] h md)) =
      (basename (fs_getcwd fs) @ ''/'') # stdout (fst (print_directory fs root [] h md 0))"
    by (cases "print_directory fs root [] h md 0") (simp add: print_tree_def)
  ultimately have "l \<in> set (stdout (fst (print_directory fs root [] h md 0)))"
    by simp
  then have "line_of_chain fs h root [] l"
    using lines_come_from_chains(1) by blast
  then obtain names blocks is_last where
    chain: "entry_chain fs h root names" and
    blocks: "set blocks \<subseteq> {indent_last, indent_mid}" and
    len: "length names = Suc (length blocks)" and
    l: "l = entry_line fs (foldl join root (butlast names)) (concat blocks) is_last (last names)"
    unfolding line_of_chain_def by auto
  have "line_depth l = length blocks"
    unfolding l by (rule line_depth_entry_line [OF blocks])
  moreover have "length blocks = length names - 1"
    using len by simp
  ultimately show "\<exists>names blocks is_last.
       entry_chain fs h root names \<and>
       set blocks \<subseteq> {indent_last, indent_mid} \<and>
       length blocks = length names - 1 \<and>
       l = entry_line fs (foldl join root (butlast names)) (concat blocks) is_last (last names) \<and>
       line_depth l = length blocks"
    using chain blocks l by blast
qed

theorem indentation_is_depth_witness:
  "indent_mid @ indent_last @ connector_last @ ''d.txt'' \<in>
     set (tl (stdout (fst (print_tree scenario_B ''root'' [] False 10)))) \<and>
   (\<exists>names blocks is_last.
       entry_chain scenario_B False ''root'' names \<and>
       set blocks \<subseteq> {indent_last, indent_mid} \<and>
       length blocks = length names - 1 \<and>
       indent_mid @ indent_last @ connector_last @ ''d.txt'' =
         entry_line scenario_B (foldl join ''root'' (butlast names)) (concat blocks) is_last
           (last names) \<and>
       line_depth (indent_mid @ indent_last @ connector_last @ ''d.txt'') = length blocks)"
proof -
  have mem: "indent_mid @ indent_last @ connector_last @ ''d.txt'' \<in>
     set (tl (stdout (fst (print_tree scenario_B ''root'' [] False 10))))"
    by (simp add: scenario_B_def run_simps)
  show ?thesis
    using mem indentation_is_depth [THEN bspec, OF mem] by blast
qed

section \<open>Validation of the root\<close>

lemma entry_line_not_message:
  "set blocks \<subseteq> {indent_last, indent_mid} \<Longrightarrow>
   entry_line fs d (concat blocks) b item \<noteq> not_found_message q"
proof (cases blocks)
  case Nil
  then show ?thesis
    by (cases b) (simp_all add: entry_line_def not_found_message_def connector_last_def
        connector_mid_def)
next
  case (Cons block rest)
  assume "set blocks \<subseteq> {indent_last, indent_mid}"
  with Cons have "block = indent_last \<or> block = indent_mid" by simp
  then show ?thesis
    using Cons
    by (auto simp: entry_line_def not_found_message_def indent_last_def indent_mid_def)
qed

lemma header_not_message: "name @ ''/'' \<noteq> not_found_message q"
proof
  assume "name @ ''/'' = not_found_message q"
  then have "last (name @ ''/'') = last (not_found_message q)" by simp
  then show False by (simp add: not_found_message_def)
qed

lemma Print_in_stdout: "Print s \<in> set evs \<longleftrightarrow> s \<in> set (stdout evs)"
  by (induction evs rule: stdout.induct) auto

lemma traversal_prints_no_message:
  "not_found_message q \<notin> set (stdout (fst (print_tree fs root [] h md)))"
proof
  assume mem: "not_found_message q \<in> set (stdout (fst (print_tree fs root [] h md)))"
  have "stdout (fst (print_tree fs root [] h md)) =
      (basename (fs_getcwd fs) @ ''/'') # stdout (fst (print_directory fs root [] h md 0))"
    by (cases "print_directory fs root [] h md 0") (simp add: print_tree_def)
  with mem header_not_message [of "basename (fs_getcwd fs)" q]
  have "not_found_message q \<in> set (stdout (fst (print_directory fs root [] h md 0)))"
    by auto
  then have "line_of_chain fs h root [] (not_found_message q)"
    using lines_come_from_chains(1) by blast
  then obtain names blocks is_last where
    blocks: "set blocks \<subseteq> {indent_last, indent_mid}" and
    line: "not_found_message q =
      entry_line fs (foldl join root (butlast names)) (concat blocks) is_last (last names)"
    unfolding line_of_chain_def by auto
  then show False
    using entry_line_not_message [OF blocks] by metis
qed

text \<open>
  C7. For a path that is not a directory (it does not exist, or is something else)
  \<^verbatim>\<open>directory_sanitizer\<close> returns \<^verbatim>\<open>False\<close> and prints the one-line diagnostic
  that the directory does not exist, which contains the path; \<^verbatim>\<open>main\<close>, called with
  the path alone or with the path and a flag, then prints this line and nothing else:
  no header, no listing. For a directory the check prints nothing and \<^verbatim>\<open>main\<close> is
  the run of \<^verbatim>\<open>print_tree\<close> on it: the check comes once, before the traversal. The
  traversal itself never prints the diagnostic, for any path.
\<close>

theorem root_validation:
  "(\<not> fs_isdir fs path \<longrightarrow>
      directory_sanitizer fs path = ([Print (not_found_message path)], False) \<and>
      (path \<notin> {''-a'', ''--all''} \<longrightarrow>
         main fs [prog, path] = ([Print (not_found_message path)], None)) \<and>
      (flag \<in> {''-a'', ''--all''} \<longrightarrow>
         main fs [prog, path, flag] = ([Print (not_found_message path)], None))) \<and>
   (fs_isdir fs path \<longrightarrow>
      directory_sanitizer fs path = ([], True) \<and>
      (path \<notin> {''-a'', ''--all''} \<longrightarrow>
         main fs [prog, path] = print_tree fs path [] False 10) \<and>
      (flag \<in> {''-a'', ''--all''} \<longrightarrow>
         main fs [prog, path, flag] = print_tree fs path [] True 10)) \<and>
   not_found_message path =
     ''error: the directory '' @ [CHR 0x27] @ path @ [CHR 0x27] @ '' does not exist.'' \<and>
   Print (not_found_message q) \<notin> set (fst (print_tree fs path [] h md))"
proof -
  have "Print (not_found_message q) \<notin> set (fst (print_tree fs path [] h md))"
    using traversal_prints_no_message [of q fs path h md] by (simp add: Print_in_stdout)
  then show ?thesis
    by (auto simp: main_def directory_sanitizer_def Let_def then_run_unit not_found_message_def)
qed

theorem root_validation_witness:
  "\<not> fs_isdir scenario_A ''/does/not/exist'' \<and>
   directory_sanitizer scenario_A ''/does/not/exist'' =
     ([Print ''error: the directory '/does/not/exist' does not exist.''], False) \<and>
   main scenario_A [''tree'', ''/does/not/exist''] =
     ([Print ''error: the directory '/does/not/exist' does not exist.''], None) \<and>
   main scenario_A [''tree'', ''/does/not/exist'', ''--all''] =
     ([Print ''error: the directory '/does/not/exist' does not exist.''], None) \<and>
   fs_isdir scenario_A ''root'' \<and>
   main scenario_A [''tree'', ''root''] = print_tree scenario_A ''root'' [] False 10 \<and>
   main scenario_A [''tree'', ''root'', ''-a''] = print_tree scenario_A ''root'' [] True 10"
  using root_validation [of scenario_A "''/does/not/exist''" "''tree''" "''--all''"]
    root_validation [of scenario_A "''root''" "''tree''" "''-a''"]
  by (simp add: scenario_A_def mk_fs_def not_found_message_def)

section \<open>The levels of a run\<close>

lemma chain_line_direct: "chain_line fs d p [item] (entry_line fs d p b item)"
  unfolding chain_line_def
  by (rule exI [of _ "[]"], rule exI [of _ b]) simp

lemma chain_line_below:
  assumes below: "chain_line fs (join d item) (p @ block) names l"
    and block: "block \<in> {indent_last, indent_mid}"
  shows "chain_line fs d p (item # names) l"
proof -
  from below obtain blocks is_last where
    blocks: "set blocks \<subseteq> {indent_last, indent_mid}" and
    len: "length names = Suc (length blocks)" and
    l: "l = entry_line fs (foldl join (join d item) (butlast names))
           ((p @ block) @ concat blocks) is_last (last names)"
    unfolding chain_line_def by blast
  from len have names: "names \<noteq> []" by auto
  have "set (block # blocks) \<subseteq> {indent_last, indent_mid}"
    using block blocks by simp
  moreover have "length (item # names) = Suc (length (block # blocks))"
    using len by simp
  moreover have "l = entry_line fs (foldl join d (butlast (item # names)))
      (p @ concat (block # blocks)) is_last (last (item # names))"
    using l names by simp
  ultimately show ?thesis
    unfolding chain_line_def by blast
qed

lemma entry_chain_Cons:
  "names \<noteq> [] \<Longrightarrow>
   entry_chain fs h d (item # names) \<longleftrightarrow>
     item \<in> set (entries fs h d) \<and> fs_isdir fs (join d item) \<and>
     entry_chain fs h (join d item) names"
  by (cases names) simp_all

lemma entry_chain_nonempty: "entry_chain fs h d names \<Longrightarrow> names \<noteq> []"
  by auto

lemma entry_chain_snoc:
  "entry_chain fs h d (names @ [item]) \<longleftrightarrow>
     dir_chain fs h d names \<and> item \<in> set (entries fs h (foldl join d names))"
proof (induction names arbitrary: d)
  case Nil
  show ?case by simp
next
  case (Cons name names)
  show ?case
    using Cons.IH [of "join d name"] by (simp add: entry_chain_Cons)
qed

lemma event_within_below:
  assumes ev: "event_within fs h (join d item) (p @ block) (k - 1) ev"
    and item: "item \<in> set (entries fs h d)" and dir: "fs_isdir fs (join d item)"
    and block: "block \<in> {indent_last, indent_mid}"
  shows "event_within fs h d p k ev"
proof (cases ev)
  case (Print l)
  with ev obtain names where chain: "entry_chain fs h (join d item) names"
    and len: "int (length names) \<le> k - 1 + 1"
    and line: "chain_line fs (join d item) (p @ block) names l"
    unfolding event_within_def by auto
  from chain have "names \<noteq> []" by auto
  then have "entry_chain fs h d (item # names)"
    using chain item dir by (simp add: entry_chain_Cons)
  moreover have "int (length (item # names)) \<le> k + 1"
    using len by simp
  moreover have "chain_line fs d p (item # names) l"
    by (rule chain_line_below [OF line block])
  ultimately show ?thesis
    unfolding event_within_def Print by (simp only: event.case) blast
next
  case (Listdir x)
  with ev obtain names where chain: "dir_chain fs h (join d item) names"
    and len: "int (length names) \<le> k - 1"
    and x: "x = foldl join (join d item) names"
    unfolding event_within_def by auto
  have "dir_chain fs h d (item # names)"
    using chain item dir by simp
  moreover have "int (length (item # names)) \<le> k"
    using len by simp
  moreover have "x = foldl join d (item # names)"
    using x by simp
  ultimately show ?thesis
    unfolding event_within_def Listdir by (simp only: event.case) blast
qed

lemma set_fst_then_run: "set (fst (then_run a b)) \<subseteq> set (fst a) \<union> set (fst b)"
  by (cases a; cases b; cases "snd a") auto

lemma set_fst_then_run3:
  "set (fst (then_run a (then_run b c))) \<subseteq> set (fst a) \<union> set (fst b) \<union> set (fst c)"
  using set_fst_then_run [of a "then_run b c"] set_fst_then_run [of b c] by blast

lemma events_within_depth:
  "\<forall>ev \<in> set (fst (print_directory fs d p h md cd)). event_within fs h d p (md - cd) ev"
  "set items \<subseteq> set (entries fs h d) \<Longrightarrow> cd \<le> md \<Longrightarrow>
   \<forall>ev \<in> set (fst (print_items fs d p h md cd n i items)). event_within fs h d p (md - cd) ev"
proof (induction fs d p h md cd and fs d p h md cd n i items
    rule: print_directory_print_items.induct)
  case (1 fs directory prefix include_dotfiles max_depth current_depth)
  show ?case
  proof (cases "max_depth < current_depth")
    case True
    then show ?thesis by (simp add: print_directory_beyond)
  next
    case False
    have here: "event_within fs include_dotfiles directory prefix (max_depth - current_depth)
        (Listdir directory)"
      unfolding event_within_def using False
      by (simp, intro exI [of _ "[]"]) simp
    show ?thesis
    proof (cases "fs_listdir fs directory")
      case (Inl e)
      with False here show ?thesis by (simp add: print_directory.simps)
    next
      case (Inr listing)
      let ?items = "if \<not> include_dotfiles
          then filter (\<lambda>item. \<not> startswith item ''.'') listing else listing"
      let ?loop = "print_items fs directory prefix include_dotfiles max_depth current_depth
             (length ?items) 0 ?items"
      have items: "?items = entries fs include_dotfiles directory"
        using Inr by (simp add: entries_def)
      have unfold: "print_directory fs directory prefix include_dotfiles max_depth current_depth =
        then_run ([Listdir directory], None) ?loop"
        using False Inr by (simp add: print_directory.simps Let_def)
      have inside: "set ?items \<subseteq> set (entries fs include_dotfiles directory)"
        using items by simp
      have depth: "current_depth \<le> max_depth"
        using False by simp
      have loop: "\<forall>ev \<in> set (fst ?loop).
          event_within fs include_dotfiles directory prefix (max_depth - current_depth) ev"
        by (rule "1.IH" [OF False Inr refl refl inside depth])
      show ?thesis
        unfolding unfold
        using set_fst_then_run [of "([Listdir directory], None)" ?loop] here loop by auto
    qed
  qed
next
  case (2 fs directory prefix include_dotfiles max_depth current_depth count index)
  show ?case by simp
next
  case (3 fs directory prefix include_dotfiles max_depth current_depth count index item rest)
  let ?last = "int index = int count - 1"
  let ?block = "if ?last then indent_last else indent_mid"
  let ?k = "max_depth - current_depth"
  let ?sub = "if fs_isdir fs (join directory item)
     then print_directory fs (join directory item) (prefix @ ?block) include_dotfiles
            max_depth (current_depth + 1)
     else ([], None)"
  let ?rest = "print_items fs directory prefix include_dotfiles max_depth current_depth count
     (Suc index) rest"
  let ?line = "([Print (entry_line fs directory prefix ?last item)], None :: exn option)"
  from "3.prems" have item: "item \<in> set (entries fs include_dotfiles directory)"
    and rest_in: "set rest \<subseteq> set (entries fs include_dotfiles directory)"
    and depth: "current_depth \<le> max_depth"
    by simp_all
  have unfold: "print_items fs directory prefix include_dotfiles max_depth current_depth count
      index (item # rest) = then_run ?line (then_run ?sub ?rest)"
    by (simp add: Let_def entry_line_def)
  have sub: "\<forall>ev \<in> set (fst ?sub). event_within fs include_dotfiles directory prefix ?k ev"
  proof (cases "fs_isdir fs (join directory item)")
    case True
    have "\<forall>ev \<in> set (fst ?sub).
        event_within fs include_dotfiles (join directory item) (prefix @ ?block)
          (max_depth - (current_depth + 1)) ev"
      using "3.IH"(1) [OF refl refl True] True by simp
    moreover have "max_depth - (current_depth + 1) = ?k - 1" by simp
    moreover have "?block \<in> {indent_last, indent_mid}" by simp
    ultimately show ?thesis
      using event_within_below [OF _ item True, of prefix ?block ?k] by metis
  next
    case False
    then show ?thesis by simp
  qed
  have rest: "\<forall>ev \<in> set (fst ?rest). event_within fs include_dotfiles directory prefix ?k ev"
    using "3.IH"(2) [OF refl refl rest_in depth] .
  have "entry_chain fs include_dotfiles directory [item]"
    using item by simp
  moreover have "int (length [item]) \<le> ?k + 1"
    using depth by simp
  ultimately have line: "event_within fs include_dotfiles directory prefix ?k
      (Print (entry_line fs directory prefix ?last item))"
    unfolding event_within_def using chain_line_direct [of fs directory prefix item ?last]
    by (simp, blast)
  then have line': "\<forall>ev \<in> set (fst ?line).
      event_within fs include_dotfiles directory prefix ?k ev"
    by simp
  have "set (fst (then_run ?line (then_run ?sub ?rest))) \<subseteq>
      set (fst ?line) \<union> set (fst ?sub) \<union> set (fst ?rest)"
    by (rule set_fst_then_run3)
  then show ?case
    unfolding unfold using sub rest line' by blast
qed

lemma covered_mono: "covered fs h d p k evs \<Longrightarrow> set evs \<subseteq> set evs' \<Longrightarrow> covered fs h d p k evs'"
  unfolding covered_def by blast

lemma covered_item_mono:
  "covered_item fs h d p k item evs \<Longrightarrow> set evs \<subseteq> set evs' \<Longrightarrow>
   covered_item fs h d p k item evs'"
  unfolding covered_item_def using covered_mono by blast

lemma covered_beyond: "k < 0 \<Longrightarrow> covered fs h d p k evs"
proof -
  assume k: "k < 0"
  have "\<not> (entry_chain fs h d names \<and> int (length names) \<le> k + 1)" for names
    using k by (cases names) auto
  moreover have "\<not> (dir_chain fs h d names \<and> int (length names) \<le> k)" for names
    using k by auto
  ultimately show ?thesis
    unfolding covered_def by blast
qed

lemma covered_from_items:
  assumes here: "Listdir d \<in> set evs"
    and items: "\<forall>item \<in> set (entries fs h d). covered_item fs h d p k item evs"
  shows "covered fs h d p k evs"
  unfolding covered_def
proof (intro conjI allI impI)
  fix names
  assume a: "dir_chain fs h d names \<and> int (length names) \<le> k"
  show "Listdir (foldl join d names) \<in> set evs"
  proof (cases names)
    case Nil
    then show ?thesis using here by simp
  next
    case (Cons item rest)
    with a have item: "item \<in> set (entries fs h d)" and dir: "fs_isdir fs (join d item)"
      and chain: "dir_chain fs h (join d item) rest" and len: "int (length rest) \<le> k - 1"
      by simp_all
    from items item dir obtain block where
      "covered fs h (join d item) (p @ block) (k - 1) evs"
      unfolding covered_item_def by blast
    then have "Listdir (foldl join (join d item) rest) \<in> set evs"
      unfolding covered_def using chain len by blast
    then show ?thesis using Cons by simp
  qed
next
  fix names
  assume a: "entry_chain fs h d names \<and> int (length names) \<le> k + 1"
  then obtain item rest where names: "names = item # rest"
    by (cases names) auto
  show "\<exists>l. chain_line fs d p names l \<and> Print l \<in> set evs"
  proof (cases "rest = []")
    case True
    with a names have "item \<in> set (entries fs h d)" by simp
    with items obtain b where "Print (entry_line fs d p b item) \<in> set evs"
      unfolding covered_item_def by blast
    then show ?thesis
      using chain_line_direct [of fs d p item b] names True by blast
  next
    case False
    with a names have item: "item \<in> set (entries fs h d)" and dir: "fs_isdir fs (join d item)"
      and chain: "entry_chain fs h (join d item) rest" and len: "int (length rest) \<le> k - 1 + 1"
      by (simp_all add: entry_chain_Cons)
    from items item dir obtain block where block: "block \<in> {indent_last, indent_mid}"
      and cov: "covered fs h (join d item) (p @ block) (k - 1) evs"
      unfolding covered_item_def by blast
    from cov chain len obtain l where
      l: "chain_line fs (join d item) (p @ block) rest l" and mem: "Print l \<in> set evs"
      unfolding covered_def by blast
    have "chain_line fs d p (item # rest) l"
      by (rule chain_line_below [OF l block])
    then show ?thesis
      using mem names by blast
  qed
qed

lemma runs_cover:
  "snd (print_directory fs d p h md cd) = None \<Longrightarrow>
   covered fs h d p (md - cd) (fst (print_directory fs d p h md cd))"
  "snd (print_items fs d p h md cd n i items) = None \<Longrightarrow>
   \<forall>item \<in> set items.
     covered_item fs h d p (md - cd) item (fst (print_items fs d p h md cd n i items))"
proof (induction fs d p h md cd and fs d p h md cd n i items
    rule: print_directory_print_items.induct)
  case (1 fs directory prefix include_dotfiles max_depth current_depth)
  show ?case
  proof (cases "max_depth < current_depth")
    case True
    then show ?thesis by (simp add: covered_beyond)
  next
    case False
    show ?thesis
    proof (cases "fs_listdir fs directory")
      case (Inl e)
      with False "1.prems" show ?thesis by (simp add: print_directory.simps)
    next
      case (Inr listing)
      let ?items = "if \<not> include_dotfiles
          then filter (\<lambda>item. \<not> startswith item ''.'') listing else listing"
      let ?loop = "print_items fs directory prefix include_dotfiles max_depth current_depth
             (length ?items) 0 ?items"
      have items: "?items = entries fs include_dotfiles directory"
        using Inr by (simp add: entries_def)
      have unfold: "print_directory fs directory prefix include_dotfiles max_depth current_depth =
        then_run ([Listdir directory], None) ?loop"
        using False Inr by (simp add: print_directory.simps Let_def)
      from "1.prems" have loop_ok: "snd ?loop = None"
        unfolding unfold by (simp add: snd_then_run)
      have events: "fst (then_run ([Listdir directory], None) ?loop) =
          Listdir directory # fst ?loop"
        using loop_ok by (simp add: fst_then_run_None)
      have loop: "\<forall>item \<in> set ?items.
          covered_item fs include_dotfiles directory prefix (max_depth - current_depth) item
            (fst ?loop)"
        by (rule "1.IH" [OF False Inr refl refl loop_ok])
      have "\<forall>item \<in> set (entries fs include_dotfiles directory).
          covered_item fs include_dotfiles directory prefix (max_depth - current_depth) item
            (Listdir directory # fst ?loop)"
      proof
        fix item
        assume "item \<in> set (entries fs include_dotfiles directory)"
        then have "item \<in> set ?items"
          by (simp only: items)
        with loop have "covered_item fs include_dotfiles directory prefix
            (max_depth - current_depth) item (fst ?loop)"
          by blast
        then show "covered_item fs include_dotfiles directory prefix
            (max_depth - current_depth) item (Listdir directory # fst ?loop)"
          by (rule covered_item_mono) auto
      qed
      then show ?thesis
        unfolding unfold events by (intro covered_from_items) simp_all
    qed
  qed
next
  case (2 fs directory prefix include_dotfiles max_depth current_depth count index)
  show ?case by simp
next
  case (3 fs directory prefix include_dotfiles max_depth current_depth count index item rest)
  let ?last = "int index = int count - 1"
  let ?block = "if ?last then indent_last else indent_mid"
  let ?k = "max_depth - current_depth"
  let ?sub = "if fs_isdir fs (join directory item)
     then print_directory fs (join directory item) (prefix @ ?block) include_dotfiles
            max_depth (current_depth + 1)
     else ([], None)"
  let ?rest = "print_items fs directory prefix include_dotfiles max_depth current_depth count
     (Suc index) rest"
  let ?line = "([Print (entry_line fs directory prefix ?last item)], None :: exn option)"
  let ?all = "Print (entry_line fs directory prefix ?last item) # fst ?sub @ fst ?rest"
  have unfold: "print_items fs directory prefix include_dotfiles max_depth current_depth count
      index (item # rest) = then_run ?line (then_run ?sub ?rest)"
    by (simp add: Let_def entry_line_def)
  from "3.prems" have sub_ok: "snd ?sub = None" and rest_ok: "snd ?rest = None"
    unfolding unfold by (simp_all add: snd_then_run)
  have events: "fst (then_run ?line (then_run ?sub ?rest)) = ?all"
    using sub_ok rest_ok by (simp add: fst_then_run_None snd_then_run)
  have first: "covered_item fs include_dotfiles directory prefix ?k item ?all"
    unfolding covered_item_def
  proof (intro conjI impI)
    show "\<exists>b. Print (entry_line fs directory prefix b item) \<in> set ?all"
      by (rule exI [of _ ?last]) simp
  next
    assume dir: "fs_isdir fs (join directory item)"
    let ?call = "print_directory fs (join directory item) (prefix @ ?block) include_dotfiles
        max_depth (current_depth + 1)"
    have "snd ?call = None"
      using sub_ok dir by simp
    then have "covered fs include_dotfiles (join directory item) (prefix @ ?block)
        (max_depth - (current_depth + 1)) (fst ?call)"
      by (rule "3.IH"(1) [OF refl refl dir])
    moreover have "max_depth - (current_depth + 1) = ?k - 1"
      by simp
    ultimately have below: "covered fs include_dotfiles (join directory item)
        (prefix @ ?block) (?k - 1) (fst ?call)"
      by (simp only:)
    have "set (fst ?call) \<subseteq> set ?all"
      using dir by auto
    with below have "covered fs include_dotfiles (join directory item) (prefix @ ?block)
        (?k - 1) ?all"
      by (rule covered_mono)
    moreover have "?block \<in> {indent_last, indent_mid}"
      by simp
    ultimately show "\<exists>block \<in> {indent_last, indent_mid}.
        covered fs include_dotfiles (join directory item) (prefix @ block) (?k - 1) ?all"
      by blast
  qed
  have others: "\<forall>x \<in> set rest. covered_item fs include_dotfiles directory prefix ?k x ?all"
  proof
    fix x
    assume "x \<in> set rest"
    then have "covered_item fs include_dotfiles directory prefix ?k x (fst ?rest)"
      using "3.IH"(2) [OF refl refl rest_ok] by blast
    moreover have "set (fst ?rest) \<subseteq> set ?all"
      by auto
    ultimately show "covered_item fs include_dotfiles directory prefix ?k x ?all"
      by (rule covered_item_mono)
  qed
  show ?case
    unfolding unfold events using first others by simp
qed

lemma Listdir_in_listed: "Listdir x \<in> set evs \<longleftrightarrow> x \<in> set (listed evs)"
  by (induction evs rule: listed.induct) auto

lemma print_tree_parts:
  "tl (stdout (fst (print_tree fs d p h md))) = stdout (fst (print_directory fs d p h md 0))"
  "listed (fst (print_tree fs d p h md)) = listed (fst (print_directory fs d p h md 0))"
  "snd (print_tree fs d p h md) = snd (print_directory fs d p h md 0)"
  by (cases "print_directory fs d p h md 0"; simp add: print_tree_def)+

lemma after_connector_connector:
  "after_connector ((if b then connector_last else connector_mid) @ rest) = rest"
proof -
  let ?line = "(if b then connector_last else connector_mid) @ rest"
  have "\<not> startswith ?line indent_last" and "\<not> startswith ?line indent_mid"
    by (cases b; simp add: connector_last_def connector_mid_def indent_last_def
        indent_mid_def)+
  then show ?thesis
    by (subst after_connector.simps) (simp add: connector_last_def connector_mid_def)
qed

lemma after_connector_indent_last: "after_connector (indent_last @ rest) = after_connector rest"
  by (subst after_connector.simps) (simp add: startswith_iff)

lemma after_connector_indent_mid: "after_connector (indent_mid @ rest) = after_connector rest"
proof -
  have "\<not> startswith (indent_mid @ rest) indent_last"
    by (simp add: indent_mid_def indent_last_def)
  then show ?thesis
    by (subst after_connector.simps) (simp add: startswith_iff)
qed

lemma after_connector_blocks:
  "set blocks \<subseteq> {indent_last, indent_mid} \<Longrightarrow>
   after_connector (concat blocks @ (if b then connector_last else connector_mid) @ rest) = rest"
proof (induction blocks)
  case Nil
  show ?case by (simp add: after_connector_connector)
next
  case (Cons block blocks)
  then have "block = indent_last \<or> block = indent_mid" by simp
  then show ?case
    using Cons by (auto simp: after_connector_indent_last after_connector_indent_mid)
qed

lemma chain_line_name:
  assumes "chain_line fs d p names l"
  shows "after_connector (drop (length p) l) = last names \<or>
         after_connector (drop (length p) l) = last names @ ''/''"
proof -
  from assms obtain blocks is_last where
    blocks: "set blocks \<subseteq> {indent_last, indent_mid}" and
    l: "l = entry_line fs (foldl join d (butlast names)) (p @ concat blocks) is_last (last names)"
    unfolding chain_line_def by blast
  show ?thesis
    unfolding l entry_line_def using after_connector_blocks [OF blocks, of is_last]
    by simp
qed

lemma visible_chain_last:
  "entry_chain fs False d names \<Longrightarrow> \<not> startswith (last names) ''.''"
proof (induction fs "False" d names rule: entry_chain.induct)
  case (1 fs directory)
  then show ?case by simp
next
  case (2 fs directory item)
  then show ?case
    by (cases "fs_listdir fs directory") (simp_all add: entries_def)
next
  case (3 fs directory item v va)
  then show ?case by simp
qed

lemma dot_name_differs:
  assumes dot: "startswith name ''.''" and visible: "\<not> startswith name' ''.''"
    and a: "x = name \<or> x = name @ ''/''" and b: "x = name' \<or> x = name' @ ''/''"
  shows False
  using assms by (cases name; cases name') auto

lemma lines_within_depth:
  "l \<in> set (stdout (fst (print_directory fs d p h md cd))) \<Longrightarrow>
   \<exists>names. entry_chain fs h d names \<and> int (length names) \<le> md - cd + 1 \<and>
     chain_line fs d p names l"
  using events_within_depth(1) [of fs d p h md cd]
  by (auto simp: Print_in_stdout [symmetric] event_within_def)

lemma listings_within_depth:
  "x \<in> set (listed (fst (print_directory fs d p h md cd))) \<Longrightarrow>
   \<exists>names. dir_chain fs h d names \<and> int (length names) \<le> md - cd \<and> x = foldl join d names"
  using events_within_depth(1) [of fs d p h md cd]
  by (auto simp: Listdir_in_listed [symmetric] event_within_def)

lemma listings_down_to_depth:
  "snd (print_directory fs d p h md cd) = None \<Longrightarrow> dir_chain fs h d names \<Longrightarrow>
   int (length names) \<le> md - cd \<Longrightarrow>
   foldl join d names \<in> set (listed (fst (print_directory fs d p h md cd)))"
  using runs_cover(1) [of fs d p h md cd]
  unfolding covered_def Listdir_in_listed [symmetric] by blast

lemma lines_down_to_depth:
  assumes ok: "snd (print_directory fs d p h md cd) = None"
    and chain: "entry_chain fs h d names" and len: "int (length names) \<le> md - cd + 1"
  shows "\<exists>l \<in> set (stdout (fst (print_directory fs d p h md cd))). chain_line fs d p names l"
proof -
  have "covered fs h d p (md - cd) (fst (print_directory fs d p h md cd))"
    by (rule runs_cover(1) [OF ok])
  then obtain l where "chain_line fs d p names l"
    and "Print l \<in> set (fst (print_directory fs d p h md cd))"
    unfolding covered_def using chain len by blast
  then show ?thesis
    by (auto simp: Print_in_stdout)
qed

text \<open>
  C2. A call of \<^verbatim>\<open>print_directory\<close> entered at depth \<open>max_depth + 1\<close> does nothing:
  it prints nothing and lists nothing. A call at depth \<open>max_depth\<close> on a directory that
  can be listed lists it and prints one line for each of its items (a directory with its
  \<^verbatim>\<open>/\<close>), and nothing below them; with \<open>max_depth = 0\<close>, \<^verbatim>\<open>print_tree\<close>
  prints the header and one line for each item of the root. In the traversal of a tree
  from its root, for every \<open>max_depth\<close>: every directory listed lies at most
  \<open>max_depth\<close> directories below the root and every line printed is the line of an entry
  at most \<open>max_depth\<close> directories down, so a directory at depth \<open>max_depth + 1\<close> is
  not listed and its entries have no line; and in a run that raises nothing every
  directory reached through at most \<open>max_depth\<close> directories, in particular one at depth
  \<open>max_depth\<close> exactly, is listed and each of its items has its line.
\<close>

theorem depth_boundary:
  "print_directory fs d p h max_depth (max_depth + 1) = ([], None) \<and>
   (fs_listdir fs d = Inr listing \<longrightarrow>
      print_directory fs d p h max_depth max_depth =
        (Listdir d # map Print (level_lines fs d p (entries fs h d)), None)) \<and>
   (fs_listdir fs d = Inr listing \<longrightarrow>
      print_tree fs d p h 0 =
        (Print (basename (fs_getcwd fs) @ ''/'') # Listdir d #
         map Print (level_lines fs d p (entries fs h d)), None)) \<and>
   (\<forall>x \<in> set (listed (fst (print_tree fs d p h max_depth))).
      \<exists>names. dir_chain fs h d names \<and> int (length names) \<le> max_depth \<and>
        x = foldl join d names) \<and>
   (\<forall>l \<in> set (tl (stdout (fst (print_tree fs d p h max_depth)))).
      \<exists>names. entry_chain fs h d names \<and> int (length names) \<le> max_depth + 1 \<and>
        chain_line fs d p names l) \<and>
   (snd (print_tree fs d p h max_depth) = None \<longrightarrow>
      (\<forall>names. dir_chain fs h d names \<and> int (length names) \<le> max_depth \<longrightarrow>
         foldl join d names \<in> set (listed (fst (print_tree fs d p h max_depth))) \<and>
         (\<forall>item \<in> set (entries fs h (foldl join d names)).
            \<exists>l \<in> set (tl (stdout (fst (print_tree fs d p h max_depth)))).
              chain_line fs d p (names @ [item]) l)))"
proof (intro conjI impI allI ballI)
  show "print_directory fs d p h max_depth (max_depth + 1) = ([], None)"
    by (simp add: print_directory_beyond)
next
  assume "fs_listdir fs d = Inr listing"
  then show "print_directory fs d p h max_depth max_depth =
      (Listdir d # map Print (level_lines fs d p (entries fs h d)), None)"
    by (rule print_directory_at_limit)
next
  assume "fs_listdir fs d = Inr listing"
  then show "print_tree fs d p h 0 =
      (Print (basename (fs_getcwd fs) @ ''/'') # Listdir d #
       map Print (level_lines fs d p (entries fs h d)), None)"
    by (simp add: print_tree_def print_directory_at_limit)
next
  fix x
  assume "x \<in> set (listed (fst (print_tree fs d p h max_depth)))"
  then show "\<exists>names. dir_chain fs h d names \<and> int (length names) \<le> max_depth \<and>
      x = foldl join d names"
    using listings_within_depth [of x fs d p h max_depth 0] by (simp add: print_tree_parts)
next
  fix l
  assume "l \<in> set (tl (stdout (fst (print_tree fs d p h max_depth))))"
  then show "\<exists>names. entry_chain fs h d names \<and> int (length names) \<le> max_depth + 1 \<and>
      chain_line fs d p names l"
    using lines_within_depth [of l fs d p h max_depth 0] by (simp add: print_tree_parts)
next
  fix names
  assume ok: "snd (print_tree fs d p h max_depth) = None"
    and chain: "dir_chain fs h d names \<and> int (length names) \<le> max_depth"
  then show "foldl join d names \<in> set (listed (fst (print_tree fs d p h max_depth)))"
    using listings_down_to_depth [of fs d p h max_depth 0 names] by (simp add: print_tree_parts)
next
  fix names item
  assume ok: "snd (print_tree fs d p h max_depth) = None"
    and chain: "dir_chain fs h d names \<and> int (length names) \<le> max_depth"
    and item: "item \<in> set (entries fs h (foldl join d names))"
  have "entry_chain fs h d (names @ [item])"
    using chain item by (simp add: entry_chain_snoc)
  moreover have "int (length (names @ [item])) \<le> max_depth - 0 + 1"
    using chain by simp
  moreover have "snd (print_directory fs d p h max_depth 0) = None"
    using ok by (simp add: print_tree_parts)
  ultimately show "\<exists>l \<in> set (tl (stdout (fst (print_tree fs d p h max_depth)))).
      chain_line fs d p (names @ [item]) l"
    unfolding print_tree_parts by (intro lines_down_to_depth)
qed

theorem depth_boundary_witness:
  "print_directory scenario_A ''root/sub'' indent_last False 0 (0 + 1) = ([], None) \<and>
   print_directory scenario_A ''root'' [] False 0 0 =
     ([Listdir ''root'', Print (connector_mid @ ''a.txt''), Print (connector_mid @ ''b.txt''),
       Print (connector_last @ ''sub/'')], None) \<and>
   print_tree scenario_A ''root'' [] False 0 =
     ([Print ''project/'', Listdir ''root'', Print (connector_mid @ ''a.txt''),
       Print (connector_mid @ ''b.txt''), Print (connector_last @ ''sub/'')], None) \<and>
   snd (print_tree scenario_B ''root'' [] False 1) = None \<and>
   dir_chain scenario_B False ''root'' [''sub''] \<and> int (length [''sub'']) \<le> 1 \<and>
   ''root/sub'' \<in> set (listed (fst (print_tree scenario_B ''root'' [] False 1))) \<and>
   ''deep'' \<in> set (entries scenario_B False ''root/sub'') \<and>
   (\<exists>l \<in> set (tl (stdout (fst (print_tree scenario_B ''root'' [] False 1)))).
      chain_line scenario_B ''root'' [] [''sub'', ''deep''] l) \<and>
   (\<exists>names. dir_chain scenario_B False ''root'' names \<and> int (length names) \<le> 1 \<and>
      ''root/sub'' = foldl join ''root'' names) \<and>
   indent_mid @ connector_last @ ''deep/'' \<in>
     set (tl (stdout (fst (print_tree scenario_B ''root'' [] False 1)))) \<and>
   (\<exists>names. entry_chain scenario_B False ''root'' names \<and> int (length names) \<le> 1 + 1 \<and>
      chain_line scenario_B ''root'' [] names (indent_mid @ connector_last @ ''deep/'')) \<and>
   ''root/sub/deep'' \<notin> set (listed (fst (print_tree scenario_B ''root'' [] False 1)))"
proof -
  note on_A =
    depth_boundary [of scenario_A "''root''" "[]" False 0 "[''a.txt'', ''b.txt'', ''sub'']"]
  note on_B = depth_boundary [of scenario_B "''root''" "[]" False 1]
  have listing_A: "fs_listdir scenario_A ''root'' = Inr [''a.txt'', ''b.txt'', ''sub'']"
    by (simp add: scenario_A_def mk_fs_def)
  have first: "print_directory scenario_A ''root/sub'' indent_last False 0 (0 + 1) = ([], None)"
    by (rule depth_boundary [of scenario_A "''root/sub''" indent_last False 0,
          THEN conjunct1])
  have second: "print_directory scenario_A ''root'' [] False 0 0 =
     ([Listdir ''root'', Print (connector_mid @ ''a.txt''), Print (connector_mid @ ''b.txt''),
       Print (connector_last @ ''sub/'')], None)"
    using on_A [THEN conjunct2, THEN conjunct1, THEN mp, OF listing_A]
    by (simp add: scenario_A_def mk_fs_def level_lines_def entries_def entry_line_def join_def
        endswith_def)
  have third: "print_tree scenario_A ''root'' [] False 0 =
     ([Print ''project/'', Listdir ''root'', Print (connector_mid @ ''a.txt''),
       Print (connector_mid @ ''b.txt''), Print (connector_last @ ''sub/'')], None)"
    using on_A [THEN conjunct2, THEN conjunct2, THEN conjunct1, THEN mp, OF listing_A]
    by (simp add: scenario_A_def mk_fs_def level_lines_def entries_def entry_line_def join_def
        endswith_def basename_def)
  have run: "print_tree scenario_B ''root'' [] False 1 =
     ([Print ''project/'', Listdir ''root'', Print (connector_mid @ ''a.txt''),
       Print (connector_mid @ ''sub/''), Listdir ''root/sub'',
       Print (indent_mid @ connector_mid @ ''c.txt''),
       Print (indent_mid @ connector_last @ ''deep/''),
       Print (connector_last @ ''b.txt'')], None)"
    by (simp add: scenario_B_def run_simps)
  have ok: "snd (print_tree scenario_B ''root'' [] False 1) = None"
    by (simp add: run)
  have chain: "dir_chain scenario_B False ''root'' [''sub'']"
    by (simp add: scenario_B_def mk_fs_def entries_def join_def endswith_def)
  have len: "int (length [''sub'']) \<le> 1"
    by simp
  have path: "foldl join ''root'' [''sub''] = ''root/sub''"
    by (simp add: join_def endswith_def)
  have item: "''deep'' \<in> set (entries scenario_B False ''root/sub'')"
    by (simp add: scenario_B_def mk_fs_def entries_def)
  have listed: "''root/sub'' \<in> set (listed (fst (print_tree scenario_B ''root'' [] False 1)))"
    by (simp add: run)
  have line: "indent_mid @ connector_last @ ''deep/'' \<in>
     set (tl (stdout (fst (print_tree scenario_B ''root'' [] False 1))))"
    by (simp add: run)
  have not_listed:
    "''root/sub/deep'' \<notin> set (listed (fst (print_tree scenario_B ''root'' [] False 1)))"
    by (simp add: run)
  note sound_listed = on_B [THEN conjunct2, THEN conjunct2, THEN conjunct2, THEN conjunct1]
  note sound_lines =
    on_B [THEN conjunct2, THEN conjunct2, THEN conjunct2, THEN conjunct2, THEN conjunct1]
  note complete =
    on_B [THEN conjunct2, THEN conjunct2, THEN conjunct2, THEN conjunct2, THEN conjunct2,
      THEN mp, OF ok, THEN spec, of "[''sub'']", THEN mp, OF conjI [OF chain len]]
  have item': "''deep'' \<in> set (entries scenario_B False (foldl join ''root'' [''sub'']))"
    using item by (simp only: path)
  have "\<exists>l \<in> set (tl (stdout (fst (print_tree scenario_B ''root'' [] False 1)))).
      chain_line scenario_B ''root'' [] ([''sub''] @ [''deep'']) l"
    by (rule complete [THEN conjunct2, THEN bspec, OF item'])
  then have contents: "\<exists>l \<in> set (tl (stdout (fst (print_tree scenario_B ''root'' [] False 1)))).
      chain_line scenario_B ''root'' [] [''sub'', ''deep''] l"
    by (simp only: append.simps)
  have from_dir: "\<exists>names. dir_chain scenario_B False ''root'' names \<and>
      int (length names) \<le> 1 \<and> ''root/sub'' = foldl join ''root'' names"
    by (rule sound_listed [THEN bspec, OF listed])
  have from_entry: "\<exists>names. entry_chain scenario_B False ''root'' names \<and>
      int (length names) \<le> 1 + 1 \<and>
      chain_line scenario_B ''root'' [] names (indent_mid @ connector_last @ ''deep/'')"
    by (rule sound_lines [THEN bspec, OF line])
  show ?thesis
    by (intro conjI first second third ok chain len listed item contents from_dir from_entry
        line not_listed)
qed

section \<open>Dotfiles in the whole tree\<close>

lemma dotfile_line_in_tree:
  assumes ok: "snd (print_tree fs d p h md) = None"
    and chain: "entry_chain fs True d names"
    and len: "int (length names) \<le> md + 1"
    and dot: "startswith (last names) ''.''"
  shows "(\<exists>l \<in> set (tl (stdout (fst (print_tree fs d p h md)))). chain_line fs d p names l)
    \<longleftrightarrow> h"
proof (cases h)
  case True
  have "snd (print_directory fs d p h md 0) = None"
    using ok by (simp add: print_tree_parts)
  moreover have "entry_chain fs h d names"
    using chain True by simp
  moreover have "int (length names) \<le> md - 0 + 1"
    using len by simp
  ultimately have "\<exists>l \<in> set (stdout (fst (print_directory fs d p h md 0))).
      chain_line fs d p names l"
    by (rule lines_down_to_depth)
  then show ?thesis
    using True by (simp only: print_tree_parts)
next
  case False
  have "\<not> chain_line fs d p names l"
    if mem: "l \<in> set (tl (stdout (fst (print_tree fs d p h md))))" for l
  proof
    assume line: "chain_line fs d p names l"
    from mem have "l \<in> set (stdout (fst (print_directory fs d p h md 0)))"
      by (simp only: print_tree_parts)
    then obtain names' where chain': "entry_chain fs h d names'"
      and line': "chain_line fs d p names' l"
      using lines_within_depth by blast
    from chain' False have visible: "\<not> startswith (last names') ''.''"
      using visible_chain_last by simp
    show False
      by (rule dot_name_differs [OF dot visible chain_line_name [OF line]
            chain_line_name [OF line']])
  qed
  then show ?thesis
    using False by blast
qed

text \<open>
  C3. Without \<^verbatim>\<open>include_dotfiles\<close> the run is the run with dotfiles included on
  the file system that has no dotfile in any listing: at every level the names starting
  with a dot are neither printed nor listed, and nothing below them is. In every call
  that lists its directory and raises nothing, a dot item of the listing has its line in
  the output if and only if \<^verbatim>\<open>include_dotfiles\<close> is true. And in a traversal from the
  root that raises nothing, an entry of the tree at any level within the depth limit
  whose name starts with a dot has its line in the output if and only if
  \<^verbatim>\<open>include_dotfiles\<close> is true.
\<close>

theorem dotfiles_iff_included:
  "print_directory fs d p False md cd = print_directory (without_dotfiles fs) d p True md cd \<and>
   (snd (print_directory fs d p h md cd) = None \<and> cd \<le> md \<and>
    fs_listdir fs d = Inr listing \<and> item \<in> set listing \<and> startswith item ''.'' \<longrightarrow>
    ((\<exists>is_last. entry_line fs d p is_last item \<in>
        set (stdout (fst (print_directory fs d p h md cd)))) \<longleftrightarrow> h)) \<and>
   (snd (print_tree fs d p h md) = None \<and> entry_chain fs True d names \<and>
    int (length names) \<le> md + 1 \<and> startswith (last names) ''.'' \<longrightarrow>
    ((\<exists>l \<in> set (tl (stdout (fst (print_tree fs d p h md)))). chain_line fs d p names l)
      \<longleftrightarrow> h))"
  using dotfile_line_in_directory [of fs d p md cd h listing item]
    dotfile_line_in_tree [of fs d p h md names]
  by blast

theorem dotfiles_iff_included_witness:
  "print_directory scenario_B ''root'' [] False 10 0 =
     print_directory (without_dotfiles scenario_B) ''root'' [] True 10 0 \<and>
   (\<exists>is_last. entry_line scenario_B ''root'' [] is_last ''.hidden'' \<in>
      set (stdout (fst (print_directory scenario_B ''root'' [] True 10 0)))) \<and>
   \<not> (\<exists>is_last. entry_line scenario_B ''root'' [] is_last ''.hidden'' \<in>
      set (stdout (fst (print_directory scenario_B ''root'' [] False 10 0)))) \<and>
   entry_chain scenario_C True ''root'' [''sub'', ''.env''] \<and>
   snd (print_tree scenario_C ''root'' [] True 10) = None \<and>
   snd (print_tree scenario_C ''root'' [] False 10) = None \<and>
   (\<exists>l \<in> set (tl (stdout (fst (print_tree scenario_C ''root'' [] True 10)))).
      chain_line scenario_C ''root'' [] [''sub'', ''.env''] l) \<and>
   \<not> (\<exists>l \<in> set (tl (stdout (fst (print_tree scenario_C ''root'' [] False 10)))).
      chain_line scenario_C ''root'' [] [''sub'', ''.env''] l)"
proof -
  have ok_all: "snd (print_directory scenario_B ''root'' [] True 10 0) = None"
    by (simp add: scenario_B_def run_simps)
  have ok_visible: "snd (print_directory scenario_B ''root'' [] False 10 0) = None"
    by (simp add: scenario_B_def run_simps)
  have listing: "fs_listdir scenario_B ''root'' =
      Inr [''.hidden'', ''a.txt'', ''sub'', ''.git'', ''b.txt'']"
    by (simp add: scenario_B_def mk_fs_def)
  have dot: "startswith ''.hidden'' ''.''"
    by simp
  have depth: "(0 :: int) \<le> 10"
    by simp
  have mem: "''.hidden'' \<in> set [''.hidden'', ''a.txt'', ''sub'', ''.git'', ''b.txt'']"
    by simp
  note on_B = dotfiles_iff_included [of scenario_B "''root''" "[]" 10 0 _
      "[''.hidden'', ''a.txt'', ''sub'', ''.git'', ''b.txt'']" "''.hidden''"]
  have same: "print_directory scenario_B ''root'' [] False 10 0 =
      print_directory (without_dotfiles scenario_B) ''root'' [] True 10 0"
    by (rule on_B [THEN conjunct1])
  have shown: "\<exists>is_last. entry_line scenario_B ''root'' [] is_last ''.hidden'' \<in>
      set (stdout (fst (print_directory scenario_B ''root'' [] True 10 0)))"
    using on_B [of True, THEN conjunct2, THEN conjunct1] ok_all depth listing dot mem
    by blast
  have hidden: "\<not> (\<exists>is_last. entry_line scenario_B ''root'' [] is_last ''.hidden'' \<in>
      set (stdout (fst (print_directory scenario_B ''root'' [] False 10 0))))"
    using on_B [of False, THEN conjunct2, THEN conjunct1] ok_visible depth listing dot mem
    by blast
  have chain: "entry_chain scenario_C True ''root'' [''sub'', ''.env'']"
    by (simp add: scenario_C_def mk_fs_def entries_def join_def endswith_def)
  have len: "int (length [''sub'', ''.env'']) \<le> 10 + 1"
    by simp
  have dot': "startswith (last [''sub'', ''.env'']) ''.''"
    by simp
  have done_all: "snd (print_tree scenario_C ''root'' [] True 10) = None"
    by (simp add: scenario_C_def run_simps)
  have done_visible: "snd (print_tree scenario_C ''root'' [] False 10) = None"
    by (simp add: scenario_C_def run_simps)
  note on_C = dotfiles_iff_included [of scenario_C "''root''" "[]" 10 0 _ _ _
      "[''sub'', ''.env'']", THEN conjunct2, THEN conjunct2, THEN mp]
  have nested_shown: "\<exists>l \<in> set (tl (stdout (fst (print_tree scenario_C ''root'' [] True 10)))).
      chain_line scenario_C ''root'' [] [''sub'', ''.env''] l"
    using on_C [of True, OF conjI [OF done_all conjI [OF chain conjI [OF len dot']]]]
    by (simp only: simp_thms)
  have nested_hidden:
    "\<not> (\<exists>l \<in> set (tl (stdout (fst (print_tree scenario_C ''root'' [] False 10)))).
      chain_line scenario_C ''root'' [] [''sub'', ''.env''] l)"
    using on_C [of False, OF conjI [OF done_visible conjI [OF chain conjI [OF len dot']]]]
    by (simp only: simp_thms)
  show ?thesis
    by (intro conjI same shown hidden chain done_all done_visible nested_shown nested_hidden)
qed

end
